theory Spec2Isabelle
  imports Complex_Main
begin

section \<open>Python values, exceptions and containers\<close>

text \<open>
  The program is \<^verbatim>\<open>question3.py\<close>: two functions over a valuation matrix and an
  allocation matrix, annotated \<^verbatim>\<open>list[list[float]]\<close>. The entries are finite floats,
  modelled as the real numbers they approximate: every statement below is about exact
  arithmetic, and the rounding, overflow and underflow of doubles are outside the model
  (as is the \<^verbatim>\<open>OverflowError\<close> of a Python integer beyond the float range).
  A raised exception is a value \<open>Inl e\<close>; a returned value is \<open>Inr x\<close>.
\<close>

datatype error =
  IndexError | ZeroDivisionError | ValueError | KeyError | NetworkXNoCycle | NetworkXError

type_synonym matrix = "real list list"

type_synonym edge = "nat \<times> nat \<times> real"

text \<open>The value returned by \<^verbatim>\<open>check_and_improve_pareto_effiecient\<close>: the boolean
  \<^verbatim>\<open>True\<close>, or the allocation list after the adjustment loop.\<close>

datatype outcome = ReturnsTrue | ReturnsMatrix matrix

definition ebind :: "error + 'a \<Rightarrow> ('a \<Rightarrow> error + 'b) \<Rightarrow> error + 'b" where
  "ebind m f = (case m of Inl e \<Rightarrow> Inl e | Inr x \<Rightarrow> f x)"

text \<open>\<^verbatim>\<open>xs[i]\<close> for an index produced by \<^verbatim>\<open>range\<close> (never negative).\<close>

definition getitem :: "'a list \<Rightarrow> nat \<Rightarrow> error + 'a" where
  "getitem xs i = (if i < length xs then Inr (xs ! i) else Inl IndexError)"

definition getitem2 :: "'a list list \<Rightarrow> nat \<Rightarrow> nat \<Rightarrow> error + 'a" where
  "getitem2 M i k = ebind (getitem M i) (\<lambda>row. getitem row k)"

text \<open>\<^verbatim>\<open>M[i][k] = x\<close> on a matrix taken as a value: one row changes. This is what the
  assignment does when the rows of \<open>M\<close> are distinct list objects; the assignment on row
  objects that may be shared is \<open>setitem_row\<close> below.\<close>

definition setitem2 :: "'a list list \<Rightarrow> nat \<Rightarrow> nat \<Rightarrow> 'a \<Rightarrow> error + 'a list list" where
  "setitem2 M i k x =
     (if i < length M \<and> k < length (M ! i) then Inr (M[i := (M ! i)[k := x]])
      else Inl IndexError)"

text \<open>\<^verbatim>\<open>a / b\<close> and \<^verbatim>\<open>math.log(x)\<close> on floats, in exact arithmetic.\<close>

definition truediv :: "real \<Rightarrow> real \<Rightarrow> error + real" where
  "truediv a b = (if b = 0 then Inl ZeroDivisionError else Inr (a / b))"

definition math_log :: "real \<Rightarrow> error + real" where
  "math_log x = (if x \<le> 0 then Inl ValueError else Inr (ln x))"

text \<open>A \<^verbatim>\<open>for\<close> loop over a list that threads a state and stops at the first
  exception.\<close>

fun for_each :: "('a \<Rightarrow> 's \<Rightarrow> error + 's) \<Rightarrow> 'a list \<Rightarrow> 's \<Rightarrow> error + 's" where
  "for_each f [] s = Inr s"
| "for_each f (x # xs) s = ebind (f x s) (for_each f xs)"

text \<open>\<^verbatim>\<open>min(f(k) for k in ks)\<close>: the running minimum is replaced only by a strictly
  smaller value; an empty argument raises \<^verbatim>\<open>ValueError\<close>.\<close>

fun min_from :: "(nat \<Rightarrow> error + real) \<Rightarrow> nat list \<Rightarrow> real \<Rightarrow> error + real" where
  "min_from f [] best = Inr best"
| "min_from f (k # ks) best =
     ebind (f k) (\<lambda>x. min_from f ks (if x < best then x else best))"

definition py_min :: "(nat \<Rightarrow> error + real) \<Rightarrow> nat list \<Rightarrow> error + real" where
  "py_min f ks = (case ks of [] \<Rightarrow> Inl ValueError | k # ks' \<Rightarrow> ebind (f k) (min_from f ks'))"

text \<open>\<^verbatim>\<open>min(ks, key=f)\<close>: the first element whose key is minimal.\<close>

fun min_key_from :: "(nat \<Rightarrow> error + real) \<Rightarrow> nat list \<Rightarrow> nat \<Rightarrow> real \<Rightarrow> error + nat" where
  "min_key_from f [] b kb = Inr b"
| "min_key_from f (k # ks) b kb =
     ebind (f k) (\<lambda>x. if x < kb then min_key_from f ks k x else min_key_from f ks b kb)"

definition py_min_key :: "(nat \<Rightarrow> error + real) \<Rightarrow> nat list \<Rightarrow> error + nat" where
  "py_min_key f ks =
     (case ks of [] \<Rightarrow> Inl ValueError | k # ks' \<Rightarrow> ebind (f k) (min_key_from f ks' k))"

section \<open>The graph library\<close>

text \<open>
  Modelled from the spec: \<^verbatim>\<open>nx.negative_edge_cycle\<close> and
  \<^verbatim>\<open>nx.find_negative_cycle\<close> belong to the third-party graph library, which is not
  part of the repository. The specification (section 4.2) describes the routine:
  Bellman-Ford relaxation over \<open>|nodes| - 1\<close> rounds with a predecessor for each node;
  an edge that can still be relaxed afterwards reveals a negative cycle, which is read off
  the predecessor pointers; otherwise there is none. The graph is the list of weighted
  edges handed to \<^verbatim>\<open>add_weighted_edges_from\<close> (the callers never emit an ordered pair
  twice), and its nodes are the endpoints of the edges.
\<close>

definition nodes :: "edge list \<Rightarrow> nat list" where
  "nodes es = remdups (concat (map (\<lambda>(u, v, w). [u, v]) es))"

fun relaxable :: "(nat \<Rightarrow> real option) \<Rightarrow> edge \<Rightarrow> bool" where
  "relaxable d (u, v, w) =
     (case d u of None \<Rightarrow> False
      | Some du \<Rightarrow> (case d v of None \<Rightarrow> True | Some dv \<Rightarrow> du + w < dv))"

fun relax :: "edge \<Rightarrow> (nat \<Rightarrow> real option) \<times> (nat \<Rightarrow> nat option)
    \<Rightarrow> (nat \<Rightarrow> real option) \<times> (nat \<Rightarrow> nat option)" where
  "relax (u, v, w) (d, p) =
     (if relaxable d (u, v, w) then (d(v \<mapsto> the (d u) + w), p(v \<mapsto> u)) else (d, p))"

definition bellman_ford :: "edge list \<Rightarrow> (nat \<Rightarrow> real option) \<Rightarrow> (nat \<Rightarrow> real option) \<times> (nat \<Rightarrow> nat option)" where
  "bellman_ford es d0 = ((fold relax es) ^^ (length (nodes es) - 1)) (d0, Map.empty)"

text \<open>Detection anywhere in the graph: the relaxation starts from a virtual source that
  reaches every node, that is, with every distance finite at the start.\<close>

definition negative_edge_cycle :: "edge list \<Rightarrow> bool" where
  "negative_edge_cycle es =
     (if es = [] then False
      else list_ex (relaxable (fst (bellman_ford es (\<lambda>v. Some 0)))) es)"

text \<open>Walking the predecessor pointers backward until a node repeats; the nodes come out
  in the direction of the edges, first node repeated at the end. The fuel bounds the walk
  by the number of nodes.\<close>

fun walk_back :: "(nat \<Rightarrow> nat option) \<Rightarrow> nat \<Rightarrow> nat \<Rightarrow> nat list \<Rightarrow> error + nat list" where
  "walk_back p 0 x seen = Inl NetworkXError"
| "walk_back p (Suc fuel) x seen =
     (if x \<in> set seen then Inr (x # takeWhile (\<lambda>y. y \<noteq> x) seen @ [x])
      else (case p x of None \<Rightarrow> Inl NetworkXError
            | Some y \<Rightarrow> walk_back p fuel y (x # seen)))"

text \<open>Detection from a start node. The first edge that can still be relaxed is relaxed,
  and the walk starts at its tail: with this reading the examples documented in the
  source come out as printed there. No cycle is signalled by the exception the caller
  catches.\<close>

definition find_negative_cycle :: "edge list \<Rightarrow> nat \<Rightarrow> error + nat list" where
  "find_negative_cycle es s =
     (case bellman_ford es ((\<lambda>v. None)(s \<mapsto> 0)) of (d, p) \<Rightarrow>
        (case find (relaxable d) es of
           None \<Rightarrow> Inl NetworkXNoCycle
         | Some (u, v, w) \<Rightarrow> walk_back (p(v \<mapsto> u)) (Suc (length (nodes es))) u []))"

section \<open>Building the exchange graph\<close>

text \<open>\<^verbatim>\<open>math.log(valuations[i][k] / valuations[j][k])\<close>.\<close>

definition log_ratio :: "matrix \<Rightarrow> nat \<Rightarrow> nat \<Rightarrow> nat \<Rightarrow> error + real" where
  "log_ratio V i j k =
     ebind (getitem2 V i k) (\<lambda>a. ebind (getitem2 V j k) (\<lambda>b. ebind (truediv a b) math_log))"

text \<open>\<^verbatim>\<open>[k for k in range(num_items) if allocations[i][k] != 0]\<close>, over the list of
  the range.\<close>

fun indices :: "matrix \<Rightarrow> nat \<Rightarrow> nat list \<Rightarrow> error + nat list" where
  "indices A i [] = Inr []"
| "indices A i (k # ks) =
     ebind (getitem2 A i k) (\<lambda>a. ebind (indices A i ks) (\<lambda>r. Inr (if a \<noteq> 0 then k # r else r)))"

text \<open>The body of the double loop of \<^verbatim>\<open>is_pareto_efficient\<close> (lines 29 to 34).\<close>

definition add_edge :: "matrix \<Rightarrow> matrix \<Rightarrow> nat \<Rightarrow> nat \<Rightarrow> nat \<Rightarrow> edge list \<Rightarrow> error + edge list" where
  "add_edge V A num_items i j edges =
     (if i \<noteq> j then
        ebind (indices A i [0..<num_items]) (\<lambda>ks.
          if ks \<noteq> [] then
            ebind (py_min (log_ratio V i j) ks) (\<lambda>min_ratio_log.
              Inr (edges @ [(i, j, min_ratio_log)]))
          else Inr edges)
      else Inr edges)"

definition build_edges :: "matrix \<Rightarrow> matrix \<Rightarrow> error + edge list" where
  "build_edges V A =
     (let num_players = length V in
      ebind (getitem V 0) (\<lambda>row0.
        let num_items = length row0 in
        for_each (\<lambda>i. for_each (\<lambda>j. add_edge V A num_items i j) [0..<num_players])
          [0..<num_players] []))"

definition is_pareto_efficient :: "matrix \<Rightarrow> matrix \<Rightarrow> error + bool" where
  "is_pareto_efficient V A =
     ebind (build_edges V A) (\<lambda>edges. Inr (\<not> negative_edge_cycle edges))"

text \<open>The body of the double loop of \<^verbatim>\<open>check_and_improve_pareto_effiecient\<close>
  (lines 75 to 82): the weight and the item are two separate minimisations.\<close>

definition add_edge_item :: "matrix \<Rightarrow> matrix \<Rightarrow> nat \<Rightarrow> nat \<Rightarrow> nat
    \<Rightarrow> edge list \<times> (nat \<times> nat \<rightharpoonup> nat) \<Rightarrow> error + edge list \<times> (nat \<times> nat \<rightharpoonup> nat)" where
  "add_edge_item V A num_items i j st =
     (case st of (edges, item_dict) \<Rightarrow>
      if i \<noteq> j then
        ebind (indices A i [0..<num_items]) (\<lambda>ks.
          if ks \<noteq> [] then
            ebind (py_min (log_ratio V i j) ks) (\<lambda>min_ratio_log.
            ebind (py_min_key (log_ratio V i j) ks) (\<lambda>item.
              Inr (edges @ [(i, j, min_ratio_log)], item_dict((i, j) \<mapsto> item))))
          else Inr (edges, item_dict))
      else Inr (edges, item_dict))"

definition build_graph :: "matrix \<Rightarrow> matrix \<Rightarrow> error + edge list \<times> (nat \<times> nat \<rightharpoonup> nat)" where
  "build_graph V A =
     (let num_players = length V in
      ebind (getitem V 0) (\<lambda>row0.
        let num_items = length row0 in
        for_each (\<lambda>i. for_each (\<lambda>j. add_edge_item V A num_items i j) [0..<num_players])
          [0..<num_players] ([], Map.empty)))"

section \<open>The adjustment along a cycle\<close>

text \<open>One pass of the loop of lines 95 to 101 for the edge \<open>(u, v)\<close>: the two augmented
  assignments and the update of \<open>epsilon\<close>. Here the matrices are values, which is the
  behaviour of the source when no row of \<^verbatim>\<open>allocations\<close> is the same list object as
  another of its rows or as a row of \<^verbatim>\<open>valuations\<close> (a nested list literal, for
  instance); the valuations then do not change, and the amount of line 100 is the amount of
  line 99.\<close>

definition transfer :: "matrix \<Rightarrow> (nat \<times> nat \<rightharpoonup> nat) \<Rightarrow> nat \<Rightarrow> nat \<Rightarrow> real \<times> matrix
    \<Rightarrow> error + real \<times> matrix" where
  "transfer V item_dict u v st =
     (case st of (epsilon, A) \<Rightarrow>
      (case item_dict (u, v) of None \<Rightarrow> Inl KeyError
       | Some item \<Rightarrow>
          ebind (getitem2 A v item) (\<lambda>a_v.
          ebind (getitem2 V v item) (\<lambda>x.
          ebind (getitem2 V u item) (\<lambda>y.
          ebind (truediv (epsilon * x) y) (\<lambda>delta.
          ebind (setitem2 A v item (a_v + delta)) (\<lambda>A1.
          ebind (getitem2 A1 u item) (\<lambda>a_u.
          ebind (setitem2 A1 u item (a_u - delta)) (\<lambda>A2.
          ebind (truediv y x) (\<lambda>r.
            Inr (epsilon * r, A2)))))))))))"

text \<open>\<^verbatim>\<open>for i in range(len(cycle) - 1): u, v = cycle[i], cycle[i + 1]; ...\<close>\<close>

fun adjust :: "matrix \<Rightarrow> (nat \<times> nat \<rightharpoonup> nat) \<Rightarrow> nat list \<Rightarrow> real \<times> matrix
    \<Rightarrow> error + real \<times> matrix" where
  "adjust V item_dict (u # v # rest) st =
     ebind (transfer V item_dict u v st) (adjust V item_dict (v # rest))"
| "adjust V item_dict cycle st = Inr st"

definition check_and_improve_pareto_effiecient :: "matrix \<Rightarrow> matrix \<Rightarrow> error + outcome" where
  "check_and_improve_pareto_effiecient V A =
     ebind (build_graph V A) (\<lambda>(edges, item_dict).
       (case ebind (getitem edges 0) (\<lambda>e. find_negative_cycle edges (fst e)) of
          Inl NetworkXNoCycle \<Rightarrow> Inr ReturnsTrue
        | Inl e \<Rightarrow> Inl e
        | Inr cycle \<Rightarrow>
            ebind (adjust V item_dict cycle (1 / 1000, A)) (\<lambda>(epsilon, A').
              Inr (ReturnsMatrix A'))))"

section \<open>The adjustment on row objects that may be shared\<close>












section \<open>Notions used to state the properties\<close>

text \<open>The total of an item's column: \<open>\<Sum>\<^sub>i A[i][k]\<close> over the rows that have a column \<open>k\<close>.\<close>

definition col_sum :: "matrix \<Rightarrow> nat \<Rightarrow> real" where
  "col_sum A k = sum_list (map (\<lambda>row. if k < length row then row ! k else 0) A)"

text \<open>A valid input: at least one player, both matrices of the same rectangular shape,
  valuations strictly positive, allocations in \<open>[0, 1]\<close>.\<close>

definition valid_input :: "matrix \<Rightarrow> matrix \<Rightarrow> bool" where
  "valid_input V A =
     (V \<noteq> [] \<and> length A = length V \<and>
      list_all (\<lambda>row. length row = length (hd V) \<and> list_all (\<lambda>x. 0 < x) row) V \<and>
      list_all (\<lambda>row. length row = length (hd V) \<and> list_all (\<lambda>x. 0 \<le> x \<and> x \<le> 1) row) A)"

text \<open>The documented input contract adds that every item is fully distributed.\<close>

definition input_contract :: "matrix \<Rightarrow> matrix \<Rightarrow> bool" where
  "input_contract V A =
     (valid_input V A \<and> list_all (\<lambda>k. col_sum A k = 1) [0..<length (hd V)])"

text \<open>The utility of player \<open>u\<close>: \<open>\<Sum>\<^sub>k A[u][k] * V[u][k]\<close>.\<close>

definition utility :: "matrix \<Rightarrow> matrix \<Rightarrow> nat \<Rightarrow> real" where
  "utility V A u = sum_list (map2 (*) (A ! u) (V ! u))"


text \<open>Item \<open>item\<close> is the critical item of the ordered pair \<open>(i, j)\<close> and \<open>w\<close> its log-ratio:
  \<open>i\<close> holds a nonzero share of it, \<open>w\<close> is the least log-ratio over the items of which \<open>i\<close>
  holds a nonzero share, and every such item of a lower index has a strictly greater
  log-ratio.\<close>

definition critical_item :: "matrix \<Rightarrow> matrix \<Rightarrow> nat \<Rightarrow> nat \<Rightarrow> real \<Rightarrow> nat \<Rightarrow> bool" where
  "critical_item V A i j w item =
     (item < length (hd V) \<and> A ! i ! item \<noteq> 0 \<and> w = ln (V ! i ! item / V ! j ! item) \<and>
      (\<forall>k < length (hd V). A ! i ! k \<noteq> 0 \<longrightarrow>
         w \<le> ln (V ! i ! k / V ! j ! k) \<and> (k < item \<longrightarrow> w < ln (V ! i ! k / V ! j ! k))))"

definition edges_have_items :: "matrix \<Rightarrow> matrix \<Rightarrow> edge list \<times> (nat \<times> nat \<rightharpoonup> nat) \<Rightarrow> bool" where
  "edges_have_items V A st =
     (\<forall>(i, j, w) \<in> set (fst st). \<exists>item. snd st (i, j) = Some item \<and> critical_item V A i j w item)"

text \<open>Both matrices are rectangular, of the same shape, with at least one player.\<close>

definition well_shaped :: "matrix \<Rightarrow> matrix \<Rightarrow> bool" where
  "well_shaped V A =
     (V \<noteq> [] \<and> length A = length V \<and>
      list_all (\<lambda>row. length row = length (hd V)) V \<and>
      list_all (\<lambda>row. length row = length (hd V)) A)"

text \<open>The exceptions of a division and of a logarithm.\<close>

definition arithmetic_errors :: "error set" where
  "arithmetic_errors = {ZeroDivisionError, ValueError}"

definition fails_in :: "error set \<Rightarrow> error + 'a \<Rightarrow> bool" where
  "fails_in E r = (\<exists>e \<in> E. r = Inl e)"

definition ok_or_fails_in :: "error set \<Rightarrow> error + 'a \<Rightarrow> bool" where
  "ok_or_fails_in E r = ((\<exists>x. r = Inr x) \<or> fails_in E r)"

text \<open>The exchange graph in the words of the specification: an edge \<open>(i, j)\<close> for
  distinct players whenever player \<open>i\<close> holds a nonzero share of some item, weighted by the
  minimum over such items \<open>k\<close> of \<open>ln (V[i][k] / V[j][k])\<close>.\<close>

definition holds_items :: "matrix \<Rightarrow> matrix \<Rightarrow> nat \<Rightarrow> nat set" where
  "holds_items V A i = {k. k < length (hd V) \<and> A ! i ! k \<noteq> 0}"

definition exchange_graph :: "matrix \<Rightarrow> matrix \<Rightarrow> edge set" where
  "exchange_graph V A =
     {(i, j, w). i < length V \<and> j < length V \<and> i \<noteq> j \<and> holds_items V A i \<noteq> {} \<and>
        w = Min ((\<lambda>k. ln (V ! i ! k / V ! j ! k)) ` holds_items V A i)}"

text \<open>The edges that one pass of the double loop contributes.\<close>

definition edge_of :: "matrix \<Rightarrow> matrix \<Rightarrow> nat \<Rightarrow> nat \<Rightarrow> edge list" where
  "edge_of V A i j =
     (if i \<noteq> j \<and> holds_items V A i \<noteq> {}
      then [(i, j, Min ((\<lambda>k. ln (V ! i ! k / V ! j ! k)) ` holds_items V A i))] else [])"


text \<open>A cycle of a graph is a nonempty list of its edges, each ending where the next
  starts and the last ending where the first starts; its weight is the sum of the
  weights.\<close>

definition chain :: "edge list \<Rightarrow> bool" where
  "chain p = successively (\<lambda>e e'. fst (snd e) = fst e') p"

definition weight :: "edge list \<Rightarrow> real" where
  "weight p = sum_list (map (\<lambda>e. snd (snd e)) p)"

definition is_cycle :: "edge set \<Rightarrow> edge list \<Rightarrow> bool" where
  "is_cycle E c = (c \<noteq> [] \<and> set c \<subseteq> E \<and> chain c \<and> fst (snd (last c)) = fst (hd c))"

definition has_negative_cycle :: "edge set \<Rightarrow> bool" where
  "has_negative_cycle E = (\<exists>c. is_cycle E c \<and> weight c < 0)"

text \<open>A walk of the graph that ends at \<open>v\<close>; the empty walk ends anywhere.\<close>

definition walk_to :: "edge set \<Rightarrow> nat \<Rightarrow> edge list \<Rightarrow> bool" where
  "walk_to E v p = (set p \<subseteq> E \<and> chain p \<and> (p = [] \<or> fst (snd (last p)) = v))"

text \<open>The relaxation on distances that are all finite, as it runs from the virtual
  source.\<close>

fun relax_dist :: "edge \<Rightarrow> (nat \<Rightarrow> real) \<Rightarrow> (nat \<Rightarrow> real)" where
  "relax_dist (u, v, w) D = (if D u + w < D v then D(v := D u + w) else D)"

definition rounds :: "edge list \<Rightarrow> nat \<Rightarrow> nat \<Rightarrow> real" where
  "rounds es k = ((fold relax_dist es) ^^ k) (\<lambda>v. 0)"


section \<open>Exceptions and containers: basic facts\<close>

lemma ebind_Inr_iff: "ebind m f = Inr y \<longleftrightarrow> (\<exists>x. m = Inr x \<and> f x = Inr y)"
  by (cases m) (simp_all add: ebind_def)

lemma getitem2_Inr:
  "getitem2 M i k = Inr a \<Longrightarrow> i < length M \<and> k < length (M ! i) \<and> a = M ! i ! k"
  by (auto simp: getitem2_def getitem_def ebind_def split: if_splits)


section \<open>The adjustment loop: conservation and frame\<close>








section \<open>Evaluating the program on concrete inputs\<close>

lemma upt_0_2: "[0..<2] = [0, Suc 0]"
  by (simp add: upt_rec)

lemma ln_add: "0 < a \<Longrightarrow> 0 < b \<Longrightarrow> ln a + ln b = ln (a * (b::real))"
  by (simp add: ln_mult_pos)

lemmas py_defs = ebind_def getitem_def getitem2_def setitem2_def truediv_def math_log_def
  py_min_def py_min_key_def log_ratio_def

subsection \<open>An input on which the transfer exceeds the holder's share\<close>

lemma overshoot_graph:
  "build_graph [[1, 2000], [2000, 1]] [[1, 0], [0, 1]] =
     Inr ([(0, Suc 0, ln (1 / 2000)), (Suc 0, 0, ln (1 / 2000))],
          [(0, Suc 0) \<mapsto> 0, (Suc 0, 0) \<mapsto> Suc 0])"
  by (simp add: build_graph_def add_edge_item_def upt_0_2 py_defs)

lemma overshoot_cycle:
  "find_negative_cycle [(0, Suc 0, ln (1 / 2000)), (Suc 0, 0, ln (1 / 2000))] 0 =
     Inr [0, Suc 0, 0]"
  by (simp add: find_negative_cycle_def bellman_ford_def nodes_def ln_add)

lemma overshoot_adjust:
  "adjust [[1, 2000], [2000, 1]] [(0, Suc 0) \<mapsto> 0, (Suc 0, 0) \<mapsto> Suc 0] [0, Suc 0, 0]
      (1 / 1000, [[1, 0], [0, 1]]) =
     Inr (1 / 4000000000, [[- 1, 1 / 1000], [2, 999 / 1000]])"
  by (simp add: transfer_def py_defs)

lemma overshoot_result:
  "check_and_improve_pareto_effiecient [[1, 2000], [2000, 1]] [[1, 0], [0, 1]] =
     Inr (ReturnsMatrix [[- 1, 1 / 1000], [2, 999 / 1000]])"
  by (simp add: check_and_improve_pareto_effiecient_def overshoot_graph overshoot_cycle
      overshoot_adjust getitem_def ebind_def del: adjust.simps)

lemma overshoot_contract: "input_contract [[1, 2000], [2000, 1]] [[1, 0], [0, 1]]"
  by (simp add: input_contract_def valid_input_def col_sum_def upt_0_2)

text \<open>
  C9. Some input that meets the documented contract (valuations strictly positive,
  allocations in \<open>[0, 1]\<close>, every column summing to 1) makes
  \<^verbatim>\<open>check_and_improve_pareto_effiecient\<close> return a matrix with an entry below 0 or above
  1: the amount \<open>epsilon * V[v][item] / V[u][item]\<close> is not clamped to what \<open>u\<close> holds.
  With valuations \<open>[[1, 2000], [2000, 1]]\<close> and allocations \<open>[[1, 0], [0, 1]]\<close> the result is
  \<open>[[-1, 0.001], [2, 0.999]]\<close>.
\<close>

theorem unclamped_transfer_leaves_unit_interval:
  "\<exists>V A A'. input_contract V A \<and>
     check_and_improve_pareto_effiecient V A = Inr (ReturnsMatrix A') \<and>
     (\<exists>i k. i < length A' \<and> k < length (A' ! i) \<and> (A' ! i ! k < 0 \<or> 1 < A' ! i ! k))"
proof -
  let ?A' = "[[- 1, 1 / 1000], [2, 999 / 1000 :: real]]"
  have "0 < length ?A' \<and> 0 < length (?A' ! 0) \<and> (?A' ! 0 ! 0 < 0 \<or> 1 < ?A' ! 0 ! 0)"
    by simp
  then have "\<exists>i k. i < length ?A' \<and> k < length (?A' ! i) \<and> (?A' ! i ! k < 0 \<or> 1 < ?A' ! i ! k)"
    by blast
  with overshoot_contract overshoot_result show ?thesis by blast
qed

subsection \<open>The first documented example of the source\<close>

text \<open>\<^verbatim>\<open>check_and_improve_pareto_effiecient([[10, 20, 30, 40], [40, 30, 20, 10]],
  [[1, 0.7, 1, 0], [0, 0.3, 0, 0]])\<close> is documented to print
  \<^verbatim>\<open>[[0.996, 0.7001666666666666, 1, 0], [0.004, 0.29983333333333334, 0, 0]]\<close>.\<close>

lemma example1_graph:
  "build_graph [[10, 20, 30, 40], [40, 30, 20, 10]] [[1, 7 / 10, 1, 0], [0, 3 / 10, 0, 0]] =
     Inr ([(0, Suc 0, ln (1 / 4)), (Suc 0, 0, ln (3 / 2))],
          [(0, Suc 0) \<mapsto> 0, (Suc 0, 0) \<mapsto> Suc 0])"
  by (simp add: build_graph_def add_edge_item_def py_defs)

lemma example1_cycle:
  "find_negative_cycle [(0, Suc 0, ln (1 / 4)), (Suc 0, 0, ln (3 / 2))] 0 = Inr [0, Suc 0, 0]"
  by (simp add: find_negative_cycle_def bellman_ford_def nodes_def ln_add)

lemma example1_adjust:
  "adjust [[10, 20, 30, 40], [40, 30, 20, 10]] [(0, Suc 0) \<mapsto> 0, (Suc 0, 0) \<mapsto> Suc 0]
      [0, Suc 0, 0] (1 / 1000, [[1, 7 / 10, 1, 0], [0, 3 / 10, 0, 0]]) =
     Inr (3 / 8000, [[249 / 250, 4201 / 6000, 1, 0], [1 / 250, 1799 / 6000, 0, 0]])"
  by (simp add: transfer_def py_defs)

lemma example1_result:
  "check_and_improve_pareto_effiecient
      [[10, 20, 30, 40], [40, 30, 20, 10]] [[1, 7 / 10, 1, 0], [0, 3 / 10, 0, 0]] =
     Inr (ReturnsMatrix [[249 / 250, 4201 / 6000, 1, 0], [1 / 250, 1799 / 6000, 0, 0]])"
  by (simp add: check_and_improve_pareto_effiecient_def example1_graph example1_cycle
      example1_adjust getitem_def ebind_def del: adjust.simps)

section \<open>Unshared rows: the in-place adjustment is the adjustment on values\<close>







subsection \<open>The two example heaps\<close>












section \<open>The claims about the adjustment\<close>









section \<open>Where the adjustment does not improve\<close>

text \<open>
  C2. The claim is that every player on the detected cycle ends with at least the utility
  it had, one of them with more. On the first documented example the program returns the
  documented matrix, and player 0, who is on the cycle \<open>[0, 1, 0]\<close>, ends with utility
  \<open>4201 / 300 + 39.96 < 54\<close>: the share of item 0 it gives away is worth more to it than
  the share of item 1 it receives.
\<close>

theorem example1_player0_loses_utility:
  "check_and_improve_pareto_effiecient
      [[10, 20, 30, 40], [40, 30, 20, 10]] [[1, 7 / 10, 1, 0], [0, 3 / 10, 0, 0]] =
     Inr (ReturnsMatrix [[249 / 250, 4201 / 6000, 1, 0], [1 / 250, 1799 / 6000, 0, 0]]) \<and>
   utility [[10, 20, 30, 40], [40, 30, 20, 10]]
      [[249 / 250, 4201 / 6000, 1, 0], [1 / 250, 1799 / 6000, 0, 0]] 0
     < utility [[10, 20, 30, 40], [40, 30, 20, 10]] [[1, 7 / 10, 1, 0], [0, 3 / 10, 0, 0]] 0"
  by (simp add: example1_result utility_def)

section \<open>Inputs whose graph has no edge\<close>

text \<open>With no edge, \<^verbatim>\<open>is_pareto_efficient\<close> answers \<^verbatim>\<open>True\<close>, while
  \<^verbatim>\<open>check_and_improve_pareto_effiecient\<close> evaluates \<^verbatim>\<open>edges[0][0]\<close> on the empty list:
  the \<^verbatim>\<open>IndexError\<close> is not the exception its \<^verbatim>\<open>except\<close> clause catches.\<close>

lemma no_edges_is_pareto_efficient:
  "build_edges V A = Inr [] \<Longrightarrow> is_pareto_efficient V A = Inr True"
  by (simp add: is_pareto_efficient_def ebind_def negative_edge_cycle_def)

lemma no_edges_check_and_improve:
  "build_graph V A = Inr ([], item_dict) \<Longrightarrow>
     check_and_improve_pareto_effiecient V A = Inl IndexError"
  by (simp add: check_and_improve_pareto_effiecient_def ebind_def getitem_def)

text \<open>
  C5. The claim is that on every input whose exchange graph has no edges (a single
  player, or nothing allocated) both entry points report efficiency without raising.
  With two players who hold nothing, \<^verbatim>\<open>is_pareto_efficient\<close> returns \<^verbatim>\<open>True\<close> but
  \<^verbatim>\<open>check_and_improve_pareto_effiecient\<close> raises \<^verbatim>\<open>IndexError\<close>.
\<close>

theorem unallocated_input_raises_IndexError:
  "build_graph [[1], [1]] [[0], [0]] = Inr ([], Map.empty) \<and>
   is_pareto_efficient [[1], [1]] [[0], [0]] = Inr True \<and>
   check_and_improve_pareto_effiecient [[1], [1]] [[0], [0]] = Inl IndexError"
proof -
  have g: "build_graph [[1], [1]] [[0], [0]] = Inr ([], Map.empty)"
    by (simp add: build_graph_def add_edge_item_def py_defs)
  have e: "build_edges [[1], [1]] [[0], [0]] = Inr []"
    by (simp add: build_edges_def add_edge_def py_defs)
  from g no_edges_is_pareto_efficient [OF e] no_edges_check_and_improve [OF g]
  show ?thesis by simp
qed

text \<open>
  C4. The claim is that on every valid input on which \<^verbatim>\<open>is_pareto_efficient\<close> returns
  \<^verbatim>\<open>True\<close>, \<^verbatim>\<open>check_and_improve_pareto_effiecient\<close> returns \<^verbatim>\<open>True\<close> as well. The
  single player who holds the single item is a valid input on which the first returns
  \<^verbatim>\<open>True\<close> and the second raises \<^verbatim>\<open>IndexError\<close>.
\<close>

theorem single_player_efficient_but_raises:
  "valid_input [[5]] [[1]] \<and>
   is_pareto_efficient [[5]] [[1]] = Inr True \<and>
   check_and_improve_pareto_effiecient [[5]] [[1]] = Inl IndexError"
proof -
  have g: "build_graph [[5]] [[1]] = Inr ([], Map.empty)"
    by (simp add: build_graph_def add_edge_item_def py_defs)
  have e: "build_edges [[5]] [[1]] = Inr []"
    by (simp add: build_edges_def add_edge_def py_defs)
  have "valid_input [[5]] [[1]]"
    by (simp add: valid_input_def)
  with no_edges_is_pareto_efficient [OF e] no_edges_check_and_improve [OF g]
  show ?thesis by simp
qed

section \<open>Loops and minimisations\<close>

lemma for_each_invariant:
  assumes "for_each f xs s = Inr s'" and "P s"
    and "\<And>x t t'. x \<in> set xs \<Longrightarrow> P t \<Longrightarrow> f x t = Inr t' \<Longrightarrow> P t'"
  shows "P s'"
  using assms
proof (induction xs arbitrary: s)
  case Nil
  then show ?case by simp
next
  case (Cons x xs)
  from Cons.prems(1) obtain t where t: "f x s = Inr t" and r: "for_each f xs t = Inr s'"
    by (auto simp: ebind_Inr_iff)
  from Cons.prems(3) [OF _ Cons.prems(2) t] have "P t" by simp
  show ?case
  proof (rule Cons.IH [OF r \<open>P t\<close>])
    fix y u u'
    assume "y \<in> set xs" "P u" "f y u = Inr u'"
    with Cons.prems(3) [of y u u'] show "P u'" by simp
  qed
qed

lemma indices_Inr:
  "indices A i ks = Inr r \<Longrightarrow> r = filter (\<lambda>k. A ! i ! k \<noteq> 0) ks"
proof (induction ks arbitrary: r)
  case Nil
  then show ?case by simp
next
  case (Cons k ks)
  from Cons.prems obtain a r' where a: "getitem2 A i k = Inr a" and r': "indices A i ks = Inr r'"
    and r: "r = (if a \<noteq> 0 then k # r' else r')"
    by (auto simp: ebind_Inr_iff)
  from getitem2_Inr [OF a] Cons.IH [OF r'] r show ?case by simp
qed

lemma log_ratio_Inr: "log_ratio V i j k = Inr x \<Longrightarrow> x = ln (V ! i ! k / V ! j ! k)"
  by (auto simp: log_ratio_def ebind_Inr_iff truediv_def math_log_def
      dest!: getitem2_Inr split: if_splits)

lemma min_from_Inr:
  assumes "min_from f ks best = Inr w"
  shows "w \<le> best \<and> (\<forall>k \<in> set ks. \<exists>x. f k = Inr x \<and> w \<le> x) \<and>
         (w = best \<or> (\<exists>k \<in> set ks. f k = Inr w))"
  using assms
proof (induction ks arbitrary: best)
  case Nil
  then show ?case by simp
next
  case (Cons k ks)
  from Cons.prems obtain x where x: "f k = Inr x"
    and r: "min_from f ks (if x < best then x else best) = Inr w"
    by (auto simp: ebind_Inr_iff)
  from Cons.IH [OF r] x show ?case
    by (auto split: if_splits)
qed

lemma py_min_Inr:
  assumes "py_min f ks = Inr w"
  shows "(\<forall>k \<in> set ks. \<exists>x. f k = Inr x \<and> w \<le> x) \<and> (\<exists>k \<in> set ks. f k = Inr w)"
proof (cases ks)
  case Nil
  with assms show ?thesis by (simp add: py_min_def)
next
  case (Cons k ks')
  with assms obtain x where x: "f k = Inr x" and r: "min_from f ks' x = Inr w"
    by (auto simp: py_min_def ebind_Inr_iff)
  from min_from_Inr [OF r] x Cons show ?thesis by auto
qed

lemma min_key_from_Inr:
  assumes "min_key_from f ks b kb = Inr item"
  shows "(item = b \<and> (\<forall>k \<in> set ks. \<exists>x. f k = Inr x \<and> kb \<le> x)) \<or>
         (\<exists>pre post y. ks = pre @ item # post \<and> f item = Inr y \<and> y < kb \<and>
            (\<forall>k \<in> set pre. \<exists>x. f k = Inr x \<and> y < x) \<and>
            (\<forall>k \<in> set post. \<exists>x. f k = Inr x \<and> y \<le> x))"
  using assms
proof (induction ks arbitrary: b kb)
  case Nil
  then show ?case by simp
next
  case (Cons k ks)
  from Cons.prems obtain x where x: "f k = Inr x"
    and r: "(if x < kb then min_key_from f ks k x else min_key_from f ks b kb) = Inr item"
    by (auto simp: ebind_Inr_iff)
  show ?case
  proof (cases "x < kb")
    case True
    with r have "min_key_from f ks k x = Inr item" by simp
    from Cons.IH [OF this] show ?thesis
    proof (elim disjE conjE exE)
      assume "item = k" and "\<forall>k \<in> set ks. \<exists>x'. f k = Inr x' \<and> x \<le> x'"
      with x True have "k # ks = [] @ item # ks \<and> f item = Inr x \<and> x < kb \<and>
        (\<forall>k \<in> set []. \<exists>x'. f k = Inr x' \<and> x < x') \<and>
        (\<forall>k \<in> set ks. \<exists>x'. f k = Inr x' \<and> x \<le> x')"
        by simp
      then show ?thesis by blast
    next
      fix pre post y
      assume "ks = pre @ item # post" "f item = Inr y" "y < x"
        "\<forall>k \<in> set pre. \<exists>x. f k = Inr x \<and> y < x"
        "\<forall>k \<in> set post. \<exists>x. f k = Inr x \<and> y \<le> x"
      with x True have "k # ks = (k # pre) @ item # post \<and> f item = Inr y \<and> y < kb \<and>
        (\<forall>k \<in> set (k # pre). \<exists>x'. f k = Inr x' \<and> y < x') \<and>
        (\<forall>k \<in> set post. \<exists>x'. f k = Inr x' \<and> y \<le> x')"
        by simp
      then show ?thesis by blast
    qed
  next
    case False
    with r have "min_key_from f ks b kb = Inr item" by simp
    from Cons.IH [OF this] show ?thesis
    proof (elim disjE conjE exE)
      assume "item = b" and "\<forall>k \<in> set ks. \<exists>x'. f k = Inr x' \<and> kb \<le> x'"
      with x False show ?thesis by auto
    next
      fix pre post y
      assume "ks = pre @ item # post" "f item = Inr y" "y < kb"
        "\<forall>k \<in> set pre. \<exists>x. f k = Inr x \<and> y < x"
        "\<forall>k \<in> set post. \<exists>x. f k = Inr x \<and> y \<le> x"
      with x False have "k # ks = (k # pre) @ item # post \<and> f item = Inr y \<and> y < kb \<and>
        (\<forall>k \<in> set (k # pre). \<exists>x'. f k = Inr x' \<and> y < x') \<and>
        (\<forall>k \<in> set post. \<exists>x'. f k = Inr x' \<and> y \<le> x')"
        by auto
      then show ?thesis by blast
    qed
  qed
qed

lemma py_min_key_Inr:
  assumes "py_min_key f ks = Inr item"
  shows "\<exists>pre post y. ks = pre @ item # post \<and> f item = Inr y \<and>
            (\<forall>k \<in> set pre. \<exists>x. f k = Inr x \<and> y < x) \<and>
            (\<forall>k \<in> set post. \<exists>x. f k = Inr x \<and> y \<le> x)"
proof (cases ks)
  case Nil
  with assms show ?thesis by (simp add: py_min_key_def)
next
  case (Cons k ks')
  with assms obtain x where x: "f k = Inr x" and r: "min_key_from f ks' k x = Inr item"
    by (auto simp: py_min_key_def ebind_Inr_iff)
  from min_key_from_Inr [OF r] show ?thesis
  proof (elim disjE conjE exE)
    assume "item = k" and "\<forall>k \<in> set ks'. \<exists>x'. f k = Inr x' \<and> x \<le> x'"
    with x Cons have "ks = [] @ item # ks' \<and> f item = Inr x \<and>
        (\<forall>k \<in> set []. \<exists>x'. f k = Inr x' \<and> x < x') \<and>
        (\<forall>k \<in> set ks'. \<exists>x'. f k = Inr x' \<and> x \<le> x')"
      by simp
    then show ?thesis by blast
  next
    fix pre post y
    assume "ks' = pre @ item # post" "f item = Inr y" "y < x"
      "\<forall>k \<in> set pre. \<exists>x. f k = Inr x \<and> y < x"
      "\<forall>k \<in> set post. \<exists>x. f k = Inr x \<and> y \<le> x"
    with x Cons have "ks = (k # pre) @ item # post \<and> f item = Inr y \<and>
        (\<forall>k \<in> set (k # pre). \<exists>x'. f k = Inr x' \<and> y < x') \<and>
        (\<forall>k \<in> set post. \<exists>x'. f k = Inr x' \<and> y \<le> x')"
      by simp
    then show ?thesis by blast
  qed
qed

section \<open>The allocation matrix matters through its zero pattern only\<close>

lemma getitem2_same_shape:
  assumes "map length A1 = map length A2"
  shows "(\<exists>a. getitem2 A1 i k = Inr a) = (\<exists>a. getitem2 A2 i k = Inr a)"
    and "getitem2 A1 i k = Inl e \<longleftrightarrow> getitem2 A2 i k = Inl e"
proof -
  from assms have l: "length A1 = length A2"
    by (rule map_eq_imp_length_eq)
  have r: "length (A1 ! i) = length (A2 ! i)" if "i < length A1"
    using that assms l by (metis nth_map)
  show "(\<exists>a. getitem2 A1 i k = Inr a) = (\<exists>a. getitem2 A2 i k = Inr a)"
    using l r by (auto simp: getitem2_def getitem_def ebind_def)
  show "getitem2 A1 i k = Inl e \<longleftrightarrow> getitem2 A2 i k = Inl e"
    using l r by (auto simp: getitem2_def getitem_def ebind_def)
qed

lemma indices_same_pattern:
  assumes "map length A1 = map length A2"
    and "\<forall>i < length A1. \<forall>k < length (A1 ! i). (A1 ! i ! k = 0) = (A2 ! i ! k = 0)"
  shows "indices A1 i ks = indices A2 i ks"
proof (induction ks)
  case Nil
  show ?case by simp
next
  case (Cons k ks)
  show ?case
  proof (cases "getitem2 A1 i k")
    case (Inl e)
    with getitem2_same_shape(2) [OF assms(1), of i k e] show ?thesis
      by (simp add: ebind_def)
  next
    case (Inr a)
    with getitem2_same_shape(1) [OF assms(1), of i k] obtain b where b: "getitem2 A2 i k = Inr b"
      by auto
    from getitem2_Inr [OF Inr] getitem2_Inr [OF b] assms(2)
    have "(a = 0) = (b = 0)" by simp
    with Inr b Cons.IH show ?thesis
      by (auto simp: ebind_def split: sum.splits)
  qed
qed

text \<open>
  C10. \<^verbatim>\<open>is_pareto_efficient\<close> depends on the allocation matrix only through its
  zero/nonzero pattern: for two allocation matrices of the same shape whose entries are
  nonzero at the same positions, the results (value or exception) are equal.
\<close>

theorem is_pareto_efficient_zero_pattern:
  assumes "map length A1 = map length A2"
    and "\<forall>i < length A1. \<forall>k < length (A1 ! i). (A1 ! i ! k = 0) = (A2 ! i ! k = 0)"
  shows "is_pareto_efficient V A1 = is_pareto_efficient V A2"
proof -
  have "add_edge V A1 m i j = add_edge V A2 m i j" for m i j
    by (rule ext) (simp add: add_edge_def indices_same_pattern [OF assms])
  then show ?thesis
    by (simp add: is_pareto_efficient_def build_edges_def)
qed

theorem is_pareto_efficient_zero_pattern_witness:
  "map length [[0, 1], [1, 0 :: real]] = map length [[0, 1 / 2], [3 / 10, 0 :: real]] \<and>
   is_pareto_efficient [[50, 1], [1, 100]] [[0, 1], [1, 0]] =
     is_pareto_efficient [[50, 1], [1, 100]] [[0, 1 / 2], [3 / 10, 0]]"
proof -
  have shape: "map length [[0, 1], [1, 0 :: real]] = map length [[0, 1 / 2], [3 / 10, 0 :: real]]"
    by simp
  have pattern: "\<forall>i < length [[0, 1], [1, 0 :: real]]. \<forall>k < length ([[0, 1], [1, 0 :: real]] ! i).
      ([[0, 1], [1, 0 :: real]] ! i ! k = 0) = ([[0, 1 / 2], [3 / 10, 0 :: real]] ! i ! k = 0)"
    by (auto simp: less_Suc_eq nth_Cons')
  from shape is_pareto_efficient_zero_pattern [OF shape pattern, of "[[50, 1], [1, 100]]"]
  show ?thesis by (rule conjI)
qed

section \<open>The two minimisations agree\<close>

lemma critical_item_unique:
  assumes "critical_item V A i j w item" and "critical_item V A i j w' item'"
  shows "w' = w"
  using assms unfolding critical_item_def by (metis order_antisym)

lemma add_edge_item_Inr:
  assumes "add_edge_item V A (length (hd V)) i j (edges, item_dict) = Inr (edges', item_dict')"
  shows "(edges' = edges \<and> item_dict' = item_dict) \<or>
         (\<exists>w item. edges' = edges @ [(i, j, w)] \<and> item_dict' = item_dict((i, j) \<mapsto> item) \<and>
            critical_item V A i j w item)"
proof (cases "i \<noteq> j \<and> filter (\<lambda>k. A ! i ! k \<noteq> 0) [0..<length (hd V)] \<noteq> []")
  case False
  with assms show ?thesis
    by (auto simp: add_edge_item_def ebind_Inr_iff dest!: indices_Inr split: if_splits)
next
  case True
  define ks where "ks = filter (\<lambda>k. A ! i ! k \<noteq> 0) [0..<length (hd V)]"
  from assms True obtain w item where
    m: "py_min (log_ratio V i j) ks = Inr w" and
    a: "py_min_key (log_ratio V i j) ks = Inr item" and
    e: "edges' = edges @ [(i, j, w)]" "item_dict' = item_dict((i, j) \<mapsto> item)"
    by (auto simp: add_edge_item_def ebind_Inr_iff ks_def dest!: indices_Inr split: if_splits)
  from py_min_Inr [OF m] have
    w_le: "\<And>k. k \<in> set ks \<Longrightarrow> w \<le> ln (V ! i ! k / V ! j ! k)" and
    w_in: "\<exists>k \<in> set ks. w = ln (V ! i ! k / V ! j ! k)"
    by (auto dest: log_ratio_Inr)
  from py_min_key_Inr [OF a] obtain pre post y where
    ks: "ks = pre @ item # post" and y: "log_ratio V i j item = Inr y" and
    pre: "\<forall>k \<in> set pre. \<exists>x. log_ratio V i j k = Inr x \<and> y < x" and
    post: "\<forall>k \<in> set post. \<exists>x. log_ratio V i j k = Inr x \<and> y \<le> x"
    by blast
  from y have y_eq: "y = ln (V ! i ! item / V ! j ! item)"
    by (rule log_ratio_Inr)
  have pre_lt: "y < ln (V ! i ! k / V ! j ! k)" if "k \<in> set pre" for k
  proof -
    from pre that obtain x where "log_ratio V i j k = Inr x" "y < x" by blast
    with log_ratio_Inr [of V i j k x] show ?thesis by simp
  qed
  have post_le: "y \<le> ln (V ! i ! k / V ! j ! k)" if "k \<in> set post" for k
  proof -
    from post that obtain x where "log_ratio V i j k = Inr x" "y \<le> x" by blast
    with log_ratio_Inr [of V i j k x] show ?thesis by simp
  qed
  have y_le: "y \<le> ln (V ! i ! k / V ! j ! k)" if "k \<in> set ks" for k
    using that pre_lt [of k] post_le [of k] y_eq by (auto simp: ks)
  have item_in: "item \<in> set ks"
    by (simp add: ks)
  from w_in y_le w_le [OF item_in] y_eq have wy: "w = y"
    by force
  have "sorted ks"
    by (simp add: ks_def sorted_wrt_filter)
  then have after: "\<And>k. k \<in> set post \<Longrightarrow> item \<le> k"
    by (simp add: ks sorted_append)
  have first: "w < ln (V ! i ! k / V ! j ! k)" if "k \<in> set ks" "k < item" for k
  proof -
    from that after [of k] have "k \<in> set pre"
      by (auto simp: ks)
    with pre_lt wy show ?thesis by simp
  qed
  have "critical_item V A i j w item"
    unfolding critical_item_def
    using item_in w_le first wy y_eq by (auto simp: ks_def)
  with e show ?thesis by blast
qed

lemma add_edge_item_invariant:
  assumes "add_edge_item V A (length (hd V)) i j st = Inr st'" and "edges_have_items V A st"
  shows "edges_have_items V A st'"
proof -
  obtain edges item_dict edges' item_dict' where
    st: "st = (edges, item_dict)" "st' = (edges', item_dict')"
    by (cases st, cases st') auto
  from add_edge_item_Inr [OF assms(1) [unfolded st]] show ?thesis
  proof (elim disjE exE conjE)
    assume "edges' = edges" "item_dict' = item_dict"
    with assms(2) st show ?thesis by simp
  next
    fix w item
    assume e: "edges' = edges @ [(i, j, w)]" "item_dict' = item_dict((i, j) \<mapsto> item)"
      and c: "critical_item V A i j w item"
    have "\<exists>item'. item_dict' (a, b) = Some item' \<and> critical_item V A a b w' item'"
      if "(a, b, w') \<in> set edges'" for a b w'
    proof (cases "(a, b) = (i, j)")
      case True
      have "w' = w"
      proof (cases "(a, b, w') \<in> set edges")
        case True
        with assms(2) st obtain item' where "critical_item V A a b w' item'"
          by (auto simp: edges_have_items_def)
        with \<open>(a, b) = (i, j)\<close> critical_item_unique [OF c, of w' item'] show ?thesis by simp
      next
        case False
        with that e show ?thesis by simp
      qed
      with True c e show ?thesis by simp
    next
      case False
      with that e have "(a, b, w') \<in> set edges" by auto
      with assms(2) st obtain item' where
        "item_dict (a, b) = Some item'" "critical_item V A a b w' item'"
        by (auto simp: edges_have_items_def)
      with False e show ?thesis by auto
    qed
    then show ?thesis
      by (auto simp: edges_have_items_def st)
  qed
qed

lemma build_graph_invariant:
  assumes "build_graph V A = Inr st"
  shows "edges_have_items V A st"
proof -
  from assms have V: "V \<noteq> []"
    by (auto simp: build_graph_def ebind_Inr_iff getitem_def split: if_splits)
  then have hd: "V ! 0 = hd V"
    by (simp add: hd_conv_nth)
  from assms V hd have loop:
    "for_each (\<lambda>i. for_each (\<lambda>j. add_edge_item V A (length (hd V)) i j) [0..<length V])
        [0..<length V] ([], Map.empty) = Inr st"
    by (simp add: build_graph_def ebind_def getitem_def Let_def)
  have init: "edges_have_items V A ([], Map.empty)"
    by (simp add: edges_have_items_def)
  show ?thesis
  proof (rule for_each_invariant [where P = "edges_have_items V A", OF loop init])
    fix i t t'
    assume "edges_have_items V A t"
      and "for_each (add_edge_item V A (length (hd V)) i) [0..<length V] t = Inr t'"
    from this(2) this(1) show "edges_have_items V A t'"
      by (rule for_each_invariant [where P = "edges_have_items V A"])
        (rule add_edge_item_invariant)
  qed
qed

text \<open>
  C8. In \<^verbatim>\<open>check_and_improve_pareto_effiecient\<close> the two minimisations agree for every
  emitted edge \<open>(i, j)\<close>: the item recorded in \<^verbatim>\<open>item_dict[(i, j)]\<close> is the lowest-index
  item with \<open>allocations[i][k] != 0\<close> that attains the minimum of
  \<open>ln (valuations[i][k] / valuations[j][k])\<close>, and the weight of the edge is that
  logarithm at the recorded item, ties included.
\<close>

theorem recorded_item_is_first_minimiser:
  assumes "build_graph V A = Inr (edges, item_dict)" and "(i, j, w) \<in> set edges"
  shows "\<exists>item. item_dict (i, j) = Some item \<and> item < length (hd V) \<and> A ! i ! item \<noteq> 0 \<and>
           w = ln (V ! i ! item / V ! j ! item) \<and>
           (\<forall>k < length (hd V). A ! i ! k \<noteq> 0 \<longrightarrow>
              w \<le> ln (V ! i ! k / V ! j ! k) \<and> (k < item \<longrightarrow> w < ln (V ! i ! k / V ! j ! k)))"
  using build_graph_invariant [OF assms(1)] assms(2)
  by (fastforce simp: edges_have_items_def critical_item_def)

text \<open>The third documented example has a tie: items 0 and 1 both give the ratio \<open>1 / 2\<close> on
  the edge \<open>(0, 1)\<close>, and item 0 is recorded.\<close>

lemma example3_graph:
  "build_graph [[20, 20, 20, 40], [40, 40, 10, 10]] [[1, 3 / 10, 9 / 10, 0], [0, 7 / 10, 1 / 10, 0]] =
     Inr ([(0, Suc 0, ln (1 / 2)), (Suc 0, 0, ln (1 / 2))],
          [(0, Suc 0) \<mapsto> 0, (Suc 0, 0) \<mapsto> Suc (Suc 0)])"
  by (simp add: build_graph_def add_edge_item_def py_defs)

theorem recorded_item_is_first_minimiser_witness:
  "build_graph [[20, 20, 20, 40], [40, 40, 10, 10]] [[1, 3 / 10, 9 / 10, 0], [0, 7 / 10, 1 / 10, 0]] =
     Inr ([(0, Suc 0, ln (1 / 2)), (Suc 0, 0, ln (1 / 2))],
          [(0, Suc 0) \<mapsto> 0, (Suc 0, 0) \<mapsto> Suc (Suc 0)]) \<and>
   (0, Suc 0, ln (1 / 2)) \<in> set [(0, Suc 0, ln (1 / 2)), (Suc 0, 0, ln (1 / 2))] \<and>
   (\<exists>item. [(0, Suc 0) \<mapsto> 0, (Suc 0, 0) \<mapsto> Suc (Suc 0)] (0, Suc 0) = Some item \<and>
      item < length (hd [[20, 20, 20, 40], [40, 40, 10, 10 :: real]]) \<and>
      [[1, 3 / 10, 9 / 10, 0], [0, 7 / 10, 1 / 10, 0 :: real]] ! 0 ! item \<noteq> 0 \<and>
      ln (1 / 2) = ln ([[20, 20, 20, 40], [40, 40, 10, 10 :: real]] ! 0 ! item /
                       [[20, 20, 20, 40], [40, 40, 10, 10]] ! Suc 0 ! item))"
proof -
  have m: "(0, Suc 0, ln (1 / 2)) \<in> set [(0, Suc 0, ln (1 / 2)), (Suc 0, 0, ln (1 / 2))]"
    by simp
  from recorded_item_is_first_minimiser [OF example3_graph m] obtain item where
    "[(0, Suc 0) \<mapsto> 0, (Suc 0, 0) \<mapsto> Suc (Suc 0)] (0, Suc 0) = Some item"
    "item < length (hd [[20, 20, 20, 40], [40, 40, 10, 10 :: real]])"
    "[[1, 3 / 10, 9 / 10, 0], [0, 7 / 10, 1 / 10, 0 :: real]] ! 0 ! item \<noteq> 0"
    "ln (1 / 2) = ln ([[20, 20, 20, 40], [40, 40, 10, 10 :: real]] ! 0 ! item /
                     [[20, 20, 20, 40], [40, 40, 10, 10]] ! Suc 0 ! item)"
    by (elim exE conjE) (rule that)
  then have "\<exists>item. [(0, Suc 0) \<mapsto> 0, (Suc 0, 0) \<mapsto> Suc (Suc 0)] (0, Suc 0) = Some item \<and>
      item < length (hd [[20, 20, 20, 40], [40, 40, 10, 10 :: real]]) \<and>
      [[1, 3 / 10, 9 / 10, 0], [0, 7 / 10, 1 / 10, 0 :: real]] ! 0 ! item \<noteq> 0 \<and>
      ln (1 / 2) = ln ([[20, 20, 20, 40], [40, 40, 10, 10 :: real]] ! 0 ! item /
                       [[20, 20, 20, 40], [40, 40, 10, 10]] ! Suc 0 ! item)"
    by (intro exI [of _ item] conjI)
  with example3_graph m show ?thesis
    by (intro conjI)
qed

section \<open>Exceptions of the arithmetic\<close>

lemma for_each_ok_or_fails:
  assumes "\<And>x s. x \<in> set xs \<Longrightarrow> ok_or_fails_in E (f x s)"
  shows "ok_or_fails_in E (for_each f xs s)"
  using assms
proof (induction xs arbitrary: s)
  case Nil
  show ?case by (simp add: ok_or_fails_in_def)
next
  case (Cons x xs)
  from Cons.prems [of x s] Cons.IH Cons.prems show ?case
    by (cases "f x s") (auto simp: ebind_def ok_or_fails_in_def fails_in_def)
qed

lemma for_each_fails:
  assumes "\<And>x s. x \<in> set xs \<Longrightarrow> ok_or_fails_in E (f x s)"
    and "y \<in> set xs" and "\<And>s. fails_in E (f y s)"
  shows "fails_in E (for_each f xs s)"
  using assms(1,2)
proof (induction xs arbitrary: s)
  case Nil
  then show ?case by simp
next
  case (Cons x xs)
  show ?case
  proof (cases "f x s")
    case (Inl e)
    with Cons.prems(1) [of x s] show ?thesis
      by (auto simp: ebind_def ok_or_fails_in_def fails_in_def)
  next
    case (Inr t)
    show ?thesis
    proof (cases "y = x")
      case True
      with assms(3) [of s] Inr show ?thesis by (simp add: fails_in_def)
    next
      case False
      with Cons.prems(2) have "y \<in> set xs" by simp
      with Cons.IH [of t] Cons.prems(1) Inr show ?thesis
        by (simp add: ebind_def)
    qed
  qed
qed

lemma getitem2_well_shaped:
  assumes "well_shaped V A" and "i < length V" and "k < length (hd V)"
  shows "getitem2 V i k = Inr (V ! i ! k)" and "getitem2 A i k = Inr (A ! i ! k)"
  using assms
  by (auto simp: well_shaped_def getitem2_def getitem_def ebind_def list_all_length)

lemma log_ratio_well_shaped:
  assumes "well_shaped V A" and "i < length V" and "j < length V" and "k < length (hd V)"
  shows "log_ratio V i j k =
     (if V ! j ! k = 0 then Inl ZeroDivisionError
      else if V ! i ! k / V ! j ! k \<le> 0 then Inl ValueError
      else Inr (ln (V ! i ! k / V ! j ! k)))"
  using getitem2_well_shaped(1) [OF assms(1,2,4)] getitem2_well_shaped(1) [OF assms(1,3,4)]
  by (simp add: log_ratio_def ebind_def truediv_def math_log_def)

lemma indices_well_shaped:
  assumes "well_shaped V A" and "i < length V" and "set ks \<subseteq> {..<length (hd V)}"
  shows "indices A i ks = Inr (filter (\<lambda>k. A ! i ! k \<noteq> 0) ks)"
  using assms(3)
proof (induction ks)
  case Nil
  show ?case by simp
next
  case (Cons k ks)
  then have "k < length (hd V)" by simp
  from getitem2_well_shaped(2) [OF assms(1,2) this] Cons show ?case
    by (simp add: ebind_def)
qed

lemma min_from_ok_or_fails:
  assumes "\<And>k. k \<in> set ks \<Longrightarrow> ok_or_fails_in E (f k)"
  shows "ok_or_fails_in E (min_from f ks best)"
  using assms
proof (induction ks arbitrary: best)
  case Nil
  show ?case by (simp add: ok_or_fails_in_def)
next
  case (Cons k ks)
  from Cons.prems [of k] Cons.IH Cons.prems show ?case
    by (cases "f k") (auto simp: ebind_def ok_or_fails_in_def fails_in_def)
qed

lemma min_from_fails:
  assumes "\<And>k. k \<in> set ks \<Longrightarrow> ok_or_fails_in E (f k)"
    and "k0 \<in> set ks" and "fails_in E (f k0)"
  shows "fails_in E (min_from f ks best)"
  using assms(1,2)
proof (induction ks arbitrary: best)
  case Nil
  then show ?case by simp
next
  case (Cons k ks)
  show ?case
  proof (cases "f k")
    case (Inl e)
    with Cons.prems(1) [of k] show ?thesis
      by (auto simp: ebind_def ok_or_fails_in_def fails_in_def)
  next
    case (Inr x)
    with assms(3) have "k0 \<noteq> k" by (auto simp: fails_in_def)
    with Cons.prems(2) have "k0 \<in> set ks" by simp
    with Cons.IH Cons.prems(1) Inr show ?thesis
      by (simp add: ebind_def)
  qed
qed

lemma py_min_ok_or_fails:
  assumes "\<And>k. k \<in> set ks \<Longrightarrow> ok_or_fails_in E (f k)" and "ks \<noteq> []"
  shows "ok_or_fails_in E (py_min f ks)"
proof (cases ks)
  case Nil
  with assms(2) show ?thesis by simp
next
  case (Cons k ks')
  with assms(1) [of k] min_from_ok_or_fails [of ks' E f] assms(1) show ?thesis
    by (cases "f k") (auto simp: py_min_def ebind_def ok_or_fails_in_def fails_in_def)
qed

lemma py_min_fails:
  assumes "\<And>k. k \<in> set ks \<Longrightarrow> ok_or_fails_in E (f k)"
    and "k0 \<in> set ks" and "fails_in E (f k0)"
  shows "fails_in E (py_min f ks)"
proof (cases ks)
  case Nil
  with assms(2) show ?thesis by simp
next
  case (Cons k ks')
  show ?thesis
  proof (cases "f k")
    case (Inl e)
    with assms(1) [of k] Cons show ?thesis
      by (auto simp: py_min_def ebind_def ok_or_fails_in_def fails_in_def)
  next
    case (Inr x)
    with assms(3) have "k0 \<noteq> k" by (auto simp: fails_in_def)
    with assms(2) Cons have "k0 \<in> set ks'" by simp
    from min_from_fails [of ks' E f k0 x, OF _ this assms(3)] assms(1) Cons Inr
    show ?thesis
      by (simp add: py_min_def ebind_def)
  qed
qed

lemma min_key_from_ok_or_fails:
  assumes "\<And>k. k \<in> set ks \<Longrightarrow> ok_or_fails_in E (f k)"
  shows "ok_or_fails_in E (min_key_from f ks b kb)"
  using assms
proof (induction ks arbitrary: b kb)
  case Nil
  show ?case by (simp add: ok_or_fails_in_def)
next
  case (Cons k ks)
  from Cons.prems [of k] Cons.IH Cons.prems show ?case
    by (cases "f k") (auto simp: ebind_def ok_or_fails_in_def fails_in_def)
qed

lemma py_min_key_ok_or_fails:
  assumes "\<And>k. k \<in> set ks \<Longrightarrow> ok_or_fails_in E (f k)" and "ks \<noteq> []"
  shows "ok_or_fails_in E (py_min_key f ks)"
proof (cases ks)
  case Nil
  with assms(2) show ?thesis by simp
next
  case (Cons k ks')
  with assms(1) [of k] min_key_from_ok_or_fails [of ks' E f] assms(1) show ?thesis
    by (cases "f k") (auto simp: py_min_key_def ebind_def ok_or_fails_in_def fails_in_def)
qed

lemma log_ratio_ok_or_fails:
  assumes "well_shaped V A" and "i < length V" and "j < length V" and "k < length (hd V)"
  shows "ok_or_fails_in arithmetic_errors (log_ratio V i j k)"
  by (simp add: log_ratio_well_shaped [OF assms] ok_or_fails_in_def fails_in_def
      arithmetic_errors_def)

lemma log_ratio_fails:
  assumes "well_shaped V A" and "i < length V" and "j < length V" and "k < length (hd V)"
    and "V ! j ! k = 0 \<or> V ! i ! k / V ! j ! k \<le> 0"
  shows "fails_in arithmetic_errors (log_ratio V i j k)"
  using assms(5)
  by (auto simp: log_ratio_well_shaped [OF assms(1-4)] fails_in_def arithmetic_errors_def)

lemma ebind_ok_or_fails:
  assumes "ok_or_fails_in E m" and "\<And>x. m = Inr x \<Longrightarrow> ok_or_fails_in E (f x)"
  shows "ok_or_fails_in E (ebind m f)"
  using assms by (cases m) (auto simp: ebind_def ok_or_fails_in_def fails_in_def)

lemma ebind_fails: "fails_in E m \<Longrightarrow> fails_in E (ebind m f)"
  by (auto simp: ebind_def fails_in_def)

lemma Inr_ok: "ok_or_fails_in E (Inr x)"
  by (simp add: ok_or_fails_in_def)

lemma add_edge_ok_or_fails:
  assumes "well_shaped V A" and "i < length V" and "j < length V"
  shows "ok_or_fails_in arithmetic_errors (add_edge V A (length (hd V)) i j edges)"
proof -
  let ?ks = "filter (\<lambda>k. A ! i ! k \<noteq> 0) [0..<length (hd V)]"
  have ks: "indices A i [0..<length (hd V)] = Inr ?ks"
    by (rule indices_well_shaped [OF assms(1,2)]) auto
  show ?thesis
  proof (cases "i \<noteq> j \<and> ?ks \<noteq> []")
    case False
    then show ?thesis
      by (auto simp: add_edge_def ks ebind_def ok_or_fails_in_def)
  next
    case True
    then have "ok_or_fails_in arithmetic_errors (py_min (log_ratio V i j) ?ks)"
      by (intro py_min_ok_or_fails log_ratio_ok_or_fails [OF assms]) auto
    with True show ?thesis
      by (cases "py_min (log_ratio V i j) ?ks")
        (auto simp: add_edge_def ks ebind_def ok_or_fails_in_def fails_in_def)
  qed
qed

lemma add_edge_fails:
  assumes "well_shaped V A" and "i < length V" and "j < length V" and "i \<noteq> j"
    and "k < length (hd V)" and "A ! i ! k \<noteq> 0"
    and "V ! j ! k = 0 \<or> V ! i ! k / V ! j ! k \<le> 0"
  shows "fails_in arithmetic_errors (add_edge V A (length (hd V)) i j edges)"
proof -
  let ?ks = "filter (\<lambda>k. A ! i ! k \<noteq> 0) [0..<length (hd V)]"
  have ks: "indices A i [0..<length (hd V)] = Inr ?ks"
    by (rule indices_well_shaped [OF assms(1,2)]) auto
  from assms(5,6) have k: "k \<in> set ?ks" by simp
  have "fails_in arithmetic_errors (py_min (log_ratio V i j) ?ks)"
  proof (rule py_min_fails [OF _ k])
    show "fails_in arithmetic_errors (log_ratio V i j k)"
      by (rule log_ratio_fails [OF assms(1,2,3,5,7)])
  next
    fix k' assume "k' \<in> set ?ks"
    then have "k' < length (hd V)" by simp
    then show "ok_or_fails_in arithmetic_errors (log_ratio V i j k')"
      by (rule log_ratio_ok_or_fails [OF assms(1,2,3)])
  qed
  moreover from assms(5,6) have "?ks \<noteq> []"
    by (auto simp: filter_empty_conv)
  ultimately show ?thesis
    using assms(4) by (auto simp: add_edge_def ks ebind_def fails_in_def)
qed

lemma add_edge_item_ok_or_fails:
  assumes "well_shaped V A" and "i < length V" and "j < length V"
  shows "ok_or_fails_in arithmetic_errors (add_edge_item V A (length (hd V)) i j st)"
proof -
  let ?ks = "filter (\<lambda>k. A ! i ! k \<noteq> 0) [0..<length (hd V)]"
  obtain edges item_dict where st: "st = (edges, item_dict)"
    by (cases st)
  have ks: "indices A i [0..<length (hd V)] = Inr ?ks"
    by (rule indices_well_shaped [OF assms(1,2)]) auto
  show ?thesis
  proof (cases "i \<noteq> j \<and> ?ks \<noteq> []")
    case False
    then show ?thesis
      by (auto simp: add_edge_item_def st ks ebind_def ok_or_fails_in_def)
  next
    case True
    then have "ok_or_fails_in arithmetic_errors (py_min (log_ratio V i j) ?ks)"
      by (intro py_min_ok_or_fails log_ratio_ok_or_fails [OF assms]) auto
    moreover from True
    have "ok_or_fails_in arithmetic_errors (py_min_key (log_ratio V i j) ?ks)"
      by (intro py_min_key_ok_or_fails log_ratio_ok_or_fails [OF assms]) auto
    ultimately show ?thesis
      using True
      by (cases "py_min (log_ratio V i j) ?ks"; cases "py_min_key (log_ratio V i j) ?ks")
        (auto simp: add_edge_item_def st ks ebind_def ok_or_fails_in_def fails_in_def)
  qed
qed

lemma add_edge_item_fails:
  assumes "well_shaped V A" and "i < length V" and "j < length V" and "i \<noteq> j"
    and "k < length (hd V)" and "A ! i ! k \<noteq> 0"
    and "V ! j ! k = 0 \<or> V ! i ! k / V ! j ! k \<le> 0"
  shows "fails_in arithmetic_errors (add_edge_item V A (length (hd V)) i j st)"
proof -
  let ?ks = "filter (\<lambda>k. A ! i ! k \<noteq> 0) [0..<length (hd V)]"
  have ks: "indices A i [0..<length (hd V)] = Inr ?ks"
    by (rule indices_well_shaped [OF assms(1,2)]) auto
  from assms(5,6) have k: "k \<in> set ?ks" by simp
  have "fails_in arithmetic_errors (py_min (log_ratio V i j) ?ks)"
  proof (rule py_min_fails [OF _ k])
    show "fails_in arithmetic_errors (log_ratio V i j k)"
      by (rule log_ratio_fails [OF assms(1,2,3,5,7)])
  next
    fix k' assume "k' \<in> set ?ks"
    then have "k' < length (hd V)" by simp
    then show "ok_or_fails_in arithmetic_errors (log_ratio V i j k')"
      by (rule log_ratio_ok_or_fails [OF assms(1,2,3)])
  qed
  moreover from assms(5,6) have "?ks \<noteq> []"
    by (auto simp: filter_empty_conv)
  ultimately show ?thesis
    using assms(4) by (cases st) (auto simp: add_edge_item_def ks ebind_def fails_in_def)
qed

lemma build_edges_well_shaped:
  assumes "well_shaped V A"
  shows "build_edges V A =
     for_each (\<lambda>i. for_each (\<lambda>j. add_edge V A (length (hd V)) i j) [0..<length V])
       [0..<length V] []"
  using assms
  by (simp add: build_edges_def well_shaped_def getitem_def ebind_def hd_conv_nth Let_def)

lemma build_graph_well_shaped:
  assumes "well_shaped V A"
  shows "build_graph V A =
     for_each (\<lambda>i. for_each (\<lambda>j. add_edge_item V A (length (hd V)) i j) [0..<length V])
       [0..<length V] ([], Map.empty)"
  using assms
  by (simp add: build_graph_def well_shaped_def getitem_def ebind_def hd_conv_nth Let_def)

lemma build_edges_fails:
  assumes "well_shaped V A" and "i < length V" and "j < length V" and "i \<noteq> j"
    and "k < length (hd V)" and "A ! i ! k \<noteq> 0"
    and "V ! j ! k = 0 \<or> V ! i ! k / V ! j ! k \<le> 0"
  shows "fails_in arithmetic_errors (build_edges V A)"
  unfolding build_edges_well_shaped [OF assms(1)]
proof (rule for_each_fails [where y = i])
  show "i \<in> set [0..<length V]" using assms(2) by simp
next
  fix i' s assume "i' \<in> set [0..<length V]"
  then have i': "i' < length V" by simp
  show "ok_or_fails_in arithmetic_errors
      (for_each (add_edge V A (length (hd V)) i') [0..<length V] s)"
    by (rule for_each_ok_or_fails) (simp add: add_edge_ok_or_fails [OF assms(1) i'])
next
  fix s
  show "fails_in arithmetic_errors (for_each (add_edge V A (length (hd V)) i) [0..<length V] s)"
  proof (rule for_each_fails [where y = j])
    show "j \<in> set [0..<length V]" using assms(3) by simp
  next
    fix j' t assume "j' \<in> set [0..<length V]"
    then show "ok_or_fails_in arithmetic_errors (add_edge V A (length (hd V)) i j' t)"
      by (simp add: add_edge_ok_or_fails [OF assms(1,2)])
  next
    fix t
    show "fails_in arithmetic_errors (add_edge V A (length (hd V)) i j t)"
      by (rule add_edge_fails [OF assms])
  qed
qed

lemma build_graph_fails:
  assumes "well_shaped V A" and "i < length V" and "j < length V" and "i \<noteq> j"
    and "k < length (hd V)" and "A ! i ! k \<noteq> 0"
    and "V ! j ! k = 0 \<or> V ! i ! k / V ! j ! k \<le> 0"
  shows "fails_in arithmetic_errors (build_graph V A)"
  unfolding build_graph_well_shaped [OF assms(1)]
proof (rule for_each_fails [where y = i])
  show "i \<in> set [0..<length V]" using assms(2) by simp
next
  fix i' s assume "i' \<in> set [0..<length V]"
  then have i': "i' < length V" by simp
  show "ok_or_fails_in arithmetic_errors
      (for_each (add_edge_item V A (length (hd V)) i') [0..<length V] s)"
    by (rule for_each_ok_or_fails) (simp add: add_edge_item_ok_or_fails [OF assms(1) i'])
next
  fix s
  show "fails_in arithmetic_errors
      (for_each (add_edge_item V A (length (hd V)) i) [0..<length V] s)"
  proof (rule for_each_fails [where y = j])
    show "j \<in> set [0..<length V]" using assms(3) by simp
  next
    fix j' t assume "j' \<in> set [0..<length V]"
    then show "ok_or_fails_in arithmetic_errors (add_edge_item V A (length (hd V)) i j' t)"
      by (simp add: add_edge_item_ok_or_fails [OF assms(1,2)])
  next
    fix t
    show "fails_in arithmetic_errors (add_edge_item V A (length (hd V)) i j t)"
      by (rule add_edge_item_fails [OF assms])
  qed
qed

text \<open>
  C7, as the code has it. On a well-shaped input with finite float entries, if for distinct
  players \<open>i\<close>, \<open>j\<close> and an item \<open>k\<close> of which \<open>i\<close> holds a nonzero share the denominator
  \<open>V[j][k]\<close> is zero or the quotient \<open>V[i][k] / V[j][k]\<close> is not positive, then both entry
  points raise \<^verbatim>\<open>ZeroDivisionError\<close> or \<^verbatim>\<open>ValueError\<close> (the domain error of
  \<^verbatim>\<open>math.log\<close>) and return nothing.
\<close>

theorem bad_ratio_raises:
  assumes "well_shaped V A" and "i < length V" and "j < length V" and "i \<noteq> j"
    and "k < length (hd V)" and "A ! i ! k \<noteq> 0"
    and "V ! j ! k = 0 \<or> V ! i ! k / V ! j ! k \<le> 0"
  shows "is_pareto_efficient V A \<in> {Inl ZeroDivisionError, Inl ValueError} \<and>
         check_and_improve_pareto_effiecient V A \<in> {Inl ZeroDivisionError, Inl ValueError}"
  using build_edges_fails [OF assms] build_graph_fails [OF assms]
  by (auto simp: is_pareto_efficient_def check_and_improve_pareto_effiecient_def
      fails_in_def arithmetic_errors_def ebind_def)

theorem bad_ratio_raises_witness:
  "well_shaped [[0, 1], [1, 1]] [[1, 0], [0, 1]] \<and>
   is_pareto_efficient [[0, 1], [1, 1]] [[1, 0], [0, 1]]
     \<in> {Inl ZeroDivisionError, Inl ValueError} \<and>
   check_and_improve_pareto_effiecient [[0, 1], [1, 1]] [[1, 0], [0, 1]]
     \<in> {Inl ZeroDivisionError, Inl ValueError}"
proof -
  have w: "well_shaped [[0, 1], [1, 1]] [[1, 0], [0, 1]]"
    by (simp add: well_shaped_def)
  from w bad_ratio_raises [OF w, of 0 "Suc 0" 0] show ?thesis by simp
qed

text \<open>
  C7 as stated fails: a negative valuation that is referenced in a ratio need not raise.
  With valuations \<open>[[-1], [-2]]\<close> and allocations \<open>[[1], [0]]\<close> the entry \<open>V[0][0] = -1\<close> is
  the numerator of the only ratio evaluated, the ratio is \<open>1 / 2\<close>, and
  \<^verbatim>\<open>is_pareto_efficient\<close> returns \<^verbatim>\<open>True\<close>.
\<close>

theorem negative_valuations_accepted:
  "[[- 1], [- 2 :: real]] ! 0 ! 0 < 0 \<and> [[1], [0 :: real]] ! 0 ! 0 \<noteq> 0 \<and>
   log_ratio [[- 1], [- 2]] 0 (Suc 0) 0 = Inr (ln (1 / 2)) \<and>
   is_pareto_efficient [[- 1], [- 2]] [[1], [0]] = Inr True"
proof -
  have e: "build_edges [[- 1], [- 2]] [[1], [0]] = Inr [(0, Suc 0, ln (1 / 2))]"
    by (simp add: build_edges_def add_edge_def py_defs)
  have n: "\<not> negative_edge_cycle [(0, Suc 0, ln (1 / 2))]"
    by (simp add: negative_edge_cycle_def bellman_ford_def nodes_def)
  have l: "log_ratio [[- 1], [- 2]] 0 (Suc 0) 0 = Inr (ln (1 / 2))"
    by (simp add: py_defs)
  from e n l show ?thesis
    by (simp add: is_pareto_efficient_def ebind_def)
qed

section \<open>The detection routine finds exactly the negative cycles\<close>

subsection \<open>distances as total functions\<close>

lemma relax_total:
  "\<exists>p'. relax e (\<lambda>x. Some (D x), p) = (\<lambda>x. Some (relax_dist e D x), p')"
proof (cases e)
  case (fields u v w)
  show ?thesis
  proof (cases "D u + w < D v")
    case True
    then have "relax e (\<lambda>x. Some (D x), p) = (\<lambda>x. Some (relax_dist e D x), p(v \<mapsto> u))"
      by (auto simp: fields fun_eq_iff)
    then show ?thesis by blast
  next
    case False
    then have "relax e (\<lambda>x. Some (D x), p) = (\<lambda>x. Some (relax_dist e D x), p)"
      by (auto simp: fields fun_eq_iff)
    then show ?thesis by blast
  qed
qed

lemma fold_relax_total:
  "\<exists>p'. fold relax es (\<lambda>x. Some (D x), p) = (\<lambda>x. Some (fold relax_dist es D x), p')"
proof (induction es arbitrary: D p)
  case Nil
  show ?case by simp
next
  case (Cons e es)
  from relax_total [of e D p] obtain p1 where
    "relax e (\<lambda>x. Some (D x), p) = (\<lambda>x. Some (relax_dist e D x), p1)"
    by blast
  with Cons.IH [of "relax_dist e D" p1] show ?case by simp
qed

lemma funpow_relax_total:
  "\<exists>p'. ((fold relax es) ^^ k) (\<lambda>x. Some (D x), p) =
     (\<lambda>x. Some (((fold relax_dist es) ^^ k) D x), p')"
proof (induction k)
  case 0
  show ?case by simp
next
  case (Suc k)
  then obtain p1 where
    "((fold relax es) ^^ k) (\<lambda>x. Some (D x), p) = (\<lambda>x. Some (((fold relax_dist es) ^^ k) D x), p1)"
    by blast
  with fold_relax_total [of es "((fold relax_dist es) ^^ k) D" p1] show ?case by simp
qed

lemma bellman_ford_total:
  "fst (bellman_ford es (\<lambda>v. Some 0)) = (\<lambda>x. Some (rounds es (length (nodes es) - 1) x))"
  using funpow_relax_total [where es = es and k = "length (nodes es) - 1" and D = "\<lambda>v. 0"
      and p = Map.empty]
  by (auto simp: bellman_ford_def rounds_def)

lemma negative_edge_cycle_rounds:
  "negative_edge_cycle es \<longleftrightarrow>
     (\<exists>(u, v, w) \<in> set es. rounds es (length (nodes es) - 1) u + w
        < rounds es (length (nodes es) - 1) v)"
proof (cases "es = []")
  case True
  then show ?thesis by (simp add: negative_edge_cycle_def)
next
  case False
  have "relaxable (\<lambda>x. Some (D x)) e = (case e of (u, v, w) \<Rightarrow> D u + w < D v)" for D e
    by (cases e) simp
  with False show ?thesis
    by (simp add: negative_edge_cycle_def bellman_ford_total list_ex_iff)
qed

subsection \<open>relaxation only lowers\<close>

lemma relax_dist_le: "relax_dist e D v \<le> D v"
  by (cases e) auto

lemma fold_relax_dist_le: "fold relax_dist es D v \<le> D v"
proof (induction es arbitrary: D)
  case Nil
  show ?case by simp
next
  case (Cons e es)
  from Cons.IH [of "relax_dist e D"] relax_dist_le [of e D v] show ?case by simp
qed

lemma rounds_le_0: "rounds es k v \<le> 0"
proof (induction k)
  case 0
  show ?case by (simp add: rounds_def)
next
  case (Suc k)
  from fold_relax_dist_le [of es "rounds es k" v] Suc show ?case
    by (simp add: rounds_def)
qed

lemma fold_relax_dist_edge:
  "(u, v, w) \<in> set es \<Longrightarrow> fold relax_dist es D v \<le> D u + w"
proof (induction es arbitrary: D)
  case Nil
  then show ?case by simp
next
  case (Cons e es)
  show ?case
  proof (cases "e = (u, v, w)")
    case True
    have "relax_dist (u, v, w) D v \<le> D u + w" by simp
    with fold_relax_dist_le [of es "relax_dist (u, v, w) D" v] True show ?thesis by simp
  next
    case False
    with Cons.prems have "(u, v, w) \<in> set es" by simp
    from Cons.IH [OF this, of "relax_dist e D"] relax_dist_le [of e D u] show ?thesis by simp
  qed
qed

subsection \<open>walks\<close>

lemma chain_Nil [simp]: "chain []"
  by (simp add: chain_def)

lemma chain_single [simp]: "chain [e]"
  by (simp add: chain_def)

lemma chain_Cons:
  "chain (e # p) \<longleftrightarrow> p = [] \<or> (fst (snd e) = fst (hd p) \<and> chain p)"
  by (simp add: chain_def successively_Cons)

lemma chain_append:
  "chain (p @ q) \<longleftrightarrow>
     chain p \<and> chain q \<and> (p = [] \<or> q = [] \<or> fst (snd (last p)) = fst (hd q))"
  by (simp add: chain_def successively_append_iff)

lemma weight_simps [simp]:
  "weight [] = 0" "weight (e # p) = snd (snd e) + weight p" "weight (p @ q) = weight p + weight q"
  by (simp_all add: weight_def)

lemma walk_to_Nil [simp]: "walk_to E v []"
  by (simp add: walk_to_def)

lemma walk_to_snoc:
  assumes "walk_to E u p" and "(u, v, w) \<in> E"
  shows "walk_to E v (p @ [(u, v, w)])"
  using assms by (auto simp: walk_to_def chain_append)

subsection \<open>every distance is the weight of a walk\<close>

lemma relax_dist_walk:
  assumes "\<forall>v. \<exists>p. walk_to E v p \<and> weight p = D v" and "e \<in> E"
  shows "\<exists>p. walk_to E v p \<and> weight p = relax_dist e D v"
proof (cases e)
  case (fields a b w)
  show ?thesis
  proof (cases "D a + w < D b \<and> v = b")
    case True
    from assms(1) obtain p where "walk_to E a p" "weight p = D a" by blast
    with walk_to_snoc [of E a p b w] assms(2) fields True
    have "walk_to E v (p @ [(a, b, w)]) \<and> weight (p @ [(a, b, w)]) = relax_dist e D v"
      by simp
    then show ?thesis by blast
  next
    case False
    with fields have "relax_dist e D v = D v" by auto
    with assms(1) show ?thesis by simp
  qed
qed

lemma fold_relax_dist_walk:
  assumes "\<forall>v. \<exists>p. walk_to E v p \<and> weight p = D v" and "set es \<subseteq> E"
  shows "\<forall>v. \<exists>p. walk_to E v p \<and> weight p = fold relax_dist es D v"
  using assms
proof (induction es arbitrary: D)
  case Nil
  then show ?case by simp
next
  case (Cons e es)
  from Cons.prems have "\<forall>v. \<exists>p. walk_to E v p \<and> weight p = relax_dist e D v"
    using relax_dist_walk [of E D e] by simp
  from Cons.IH [OF this] Cons.prems(2) show ?case by simp
qed

lemma rounds_walk: "\<exists>p. walk_to (set es) v p \<and> weight p = rounds es k v"
proof (induction k arbitrary: v)
  case 0
  have "walk_to (set es) v [] \<and> weight [] = rounds es 0 v"
    by (simp add: rounds_def)
  then show ?case by blast
next
  case (Suc k)
  then have "\<forall>v. \<exists>p. walk_to (set es) v p \<and> weight p = rounds es k v" by blast
  from fold_relax_dist_walk [OF this, of es] show ?case
    by (simp add: rounds_def)
qed

subsection \<open>after k rounds no walk of at most k edges is shorter\<close>

lemma rounds_lower:
  "walk_to (set es) v p \<Longrightarrow> length p \<le> k \<Longrightarrow> rounds es k v \<le> weight p"
proof (induction k arbitrary: v p)
  case 0
  then show ?case by (simp add: rounds_def)
next
  case (Suc k)
  show ?case
  proof (cases p rule: rev_cases)
    case Nil
    with rounds_le_0 [of es "Suc k" v] show ?thesis by simp
  next
    case (snoc q e)
    obtain a b w where e: "e = (a, b, w)" by (cases e)
    from Suc.prems snoc e have q: "walk_to (set es) a q" and b: "b = v"
      and m: "(a, b, w) \<in> set es" and l: "length q \<le> k"
      by (auto simp: walk_to_def chain_append)
    from Suc.IH [OF q l] have "rounds es k a \<le> weight q" .
    moreover from fold_relax_dist_edge [OF m, of "rounds es k"]
    have "rounds es (Suc k) b \<le> rounds es k a + w"
      by (simp add: rounds_def)
    ultimately show ?thesis
      using snoc e b by simp
  qed
qed

subsection \<open>a walk that repeats a node contains a cycle\<close>

lemma repeated_node_cycle:
  assumes "chain p" and "p \<noteq> []" and "\<not> distinct (fst (hd p) # map (\<lambda>e. fst (snd e)) p)"
  shows "\<exists>p1 c p2. p = p1 @ c @ p2 \<and> c \<noteq> [] \<and> fst (snd (last c)) = fst (hd c)"
  using assms
proof (induction p)
  case Nil
  then show ?case by simp
next
  case (Cons e p)
  show ?case
  proof (cases "p = []")
    case True
    with Cons.prems have "fst (snd e) = fst e" by simp
    then have "e # p = [] @ [e] @ p \<and> [e] \<noteq> [] \<and> fst (snd (last [e])) = fst (hd [e])"
      by simp
    then show ?thesis by blast
  next
    case False
    with Cons.prems(1) have link: "fst (snd e) = fst (hd p)" and ch: "chain p"
      by (simp_all add: chain_Cons)
    show ?thesis
    proof (cases "distinct (fst (hd p) # map (\<lambda>e. fst (snd e)) p)")
      case False
      from Cons.IH [OF ch \<open>p \<noteq> []\<close> this] obtain p1 c p2 where
        "p = p1 @ c @ p2" "c \<noteq> []" "fst (snd (last c)) = fst (hd c)"
        by blast
      then have "e # p = (e # p1) @ c @ p2 \<and> c \<noteq> [] \<and> fst (snd (last c)) = fst (hd c)"
        by simp
      then show ?thesis by blast
    next
      case True
      with Cons.prems(3) link have "fst e = fst (snd e) \<or> fst e \<in> (\<lambda>e. fst (snd e)) ` set p"
        by auto
      then show ?thesis
      proof
        assume "fst e = fst (snd e)"
        then have "e # p = [] @ [e] @ p \<and> [e] \<noteq> [] \<and> fst (snd (last [e])) = fst (hd [e])"
          by simp
        then show ?thesis by blast
      next
        assume "fst e \<in> (\<lambda>e. fst (snd e)) ` set p"
        then obtain e' where "e' \<in> set p" and e': "fst (snd e') = fst e" by auto
        from split_list [OF \<open>e' \<in> set p\<close>] obtain q1 q2 where "p = q1 @ e' # q2"
          by blast
        with e' have "e # p = [] @ (e # q1 @ [e']) @ q2 \<and> e # q1 @ [e'] \<noteq> [] \<and>
            fst (snd (last (e # q1 @ [e']))) = fst (hd (e # q1 @ [e']))"
          by simp
        then show ?thesis by blast
      qed
    qed
  qed
qed

lemma set_nodes: "set (nodes es) = fst ` set es \<union> (\<lambda>e. fst (snd e)) ` set es"
  by (induction es) (auto simp: nodes_def)

lemma nodes_of_walk:
  assumes "set p \<subseteq> set es" and "p \<noteq> []"
  shows "set (fst (hd p) # map (\<lambda>e. fst (snd e)) p) \<subseteq> set (nodes es)"
proof -
  from assms have "hd p \<in> set es" by (cases p) auto
  then have "fst (hd p) \<in> set (nodes es)"
    unfolding set_nodes by blast
  moreover have "fst (snd e) \<in> set (nodes es)" if "e \<in> set p" for e
    using that assms(1) unfolding set_nodes by blast
  ultimately show ?thesis by auto
qed

lemma distinct_walk_short:
  assumes "set p \<subseteq> set es" and "p \<noteq> []"
    and "distinct (fst (hd p) # map (\<lambda>e. fst (snd e)) p)"
  shows "length p \<le> length (nodes es) - 1"
proof -
  let ?vs = "fst (hd p) # map (\<lambda>e. fst (snd e)) p"
  from assms(3) have "card (set ?vs) = length ?vs"
    by (rule distinct_card)
  moreover have "card (set ?vs) \<le> card (set (nodes es))"
    by (rule card_mono [OF _ nodes_of_walk [OF assms(1,2)]]) simp
  moreover have "distinct (nodes es)"
    by (simp add: nodes_def)
  then have "card (set (nodes es)) = length (nodes es)"
    by (rule distinct_card)
  ultimately show ?thesis by simp
qed

subsection \<open>without negative cycles a shortest walk is short\<close>

lemma shorten_walk:
  assumes "\<not> has_negative_cycle (set es)"
  shows "walk_to (set es) v p \<Longrightarrow>
    \<exists>r. walk_to (set es) v r \<and> length r \<le> length (nodes es) - 1 \<and> weight r \<le> weight p"
proof (induction p rule: length_induct)
  case (1 p)
  show ?case
  proof (cases "p = [] \<or> distinct (fst (hd p) # map (\<lambda>e. fst (snd e)) p)")
    case True
    then show ?thesis
    proof
      assume "p = []"
      then have "walk_to (set es) v [] \<and> length ([] :: edge list) \<le> length (nodes es) - 1 \<and>
          weight [] \<le> weight p"
        by simp
      then show ?thesis by blast
    next
      assume d: "distinct (fst (hd p) # map (\<lambda>e. fst (snd e)) p)"
      show ?thesis
      proof (cases "p = []")
        case True
        then have "walk_to (set es) v [] \<and> length ([] :: edge list) \<le> length (nodes es) - 1 \<and>
            weight [] \<le> weight p"
          by simp
        then show ?thesis by blast
      next
        case False
        from "1.prems" have "set p \<subseteq> set es" by (simp add: walk_to_def)
        from distinct_walk_short [OF this False d] "1.prems" show ?thesis by auto
      qed
    qed
  next
    case False
    then have ne: "p \<noteq> []" and nd: "\<not> distinct (fst (hd p) # map (\<lambda>e. fst (snd e)) p)"
      by simp_all
    from "1.prems" have sub: "set p \<subseteq> set es" and ch: "chain p"
      and end_v: "fst (snd (last p)) = v"
      using ne by (simp_all add: walk_to_def)
    from repeated_node_cycle [OF ch ne nd] obtain p1 c p2 where
      p: "p = p1 @ c @ p2" and c: "c \<noteq> []" and closed: "fst (snd (last c)) = fst (hd c)"
      by blast
    from ch p have chc: "chain c" and ch1: "chain p1" and ch2: "chain p2"
      and l1: "p1 = [] \<or> fst (snd (last p1)) = fst (hd c)"
      and l2: "p2 = [] \<or> fst (snd (last c)) = fst (hd p2)"
      using c by (auto simp: chain_append)
    from sub p chc c closed have "is_cycle (set es) c"
      by (simp add: is_cycle_def)
    with assms have wc: "0 \<le> weight c"
      by (force simp: has_negative_cycle_def)
    have r0: "walk_to (set es) v (p1 @ p2)"
      unfolding walk_to_def
    proof (intro conjI)
      show "set (p1 @ p2) \<subseteq> set es" using sub p by simp
      show "chain (p1 @ p2)"
        using ch1 ch2 l1 l2 closed by (auto simp: chain_append)
      show "p1 @ p2 = [] \<or> fst (snd (last (p1 @ p2))) = v"
        using end_v p c l1 closed by (cases "p2 = []") auto
    qed
    have "length (p1 @ p2) < length p"
      using p c by simp
    with "1.IH" r0 obtain r where
      "walk_to (set es) v r" "length r \<le> length (nodes es) - 1" "weight r \<le> weight (p1 @ p2)"
      by blast
    with wc p show ?thesis
      by (intro exI [of _ r]) simp
  qed
qed

subsection \<open>the detection is exact\<close>

lemma potential_walk:
  assumes "\<forall>(u, v, w) \<in> E. D v \<le> D u + w" and "set p \<subseteq> E" and "chain p" and "p \<noteq> []"
  shows "D (fst (snd (last p))) \<le> D (fst (hd p)) + weight p"
  using assms(2-4)
proof (induction p)
  case Nil
  then show ?case by simp
next
  case (Cons e p)
  obtain a b w where e: "e = (a, b, w)" by (cases e)
  with Cons.prems(1) assms(1) have step: "D b \<le> D a + w" by auto
  show ?case
  proof (cases "p = []")
    case True
    with step e show ?thesis by simp
  next
    case False
    with Cons.prems have "set p \<subseteq> E" "chain p" and link: "b = fst (hd p)"
      by (simp_all add: chain_Cons e)
    from Cons.IH [OF this(1,2) False] step link False e show ?thesis by simp
  qed
qed

lemma no_relaxable_no_cycle:
  assumes "\<forall>(u, v, w) \<in> E. D v \<le> D u + w"
  shows "\<not> has_negative_cycle E"
proof
  assume "has_negative_cycle E"
  then obtain c where c: "is_cycle E c" and neg: "weight c < 0"
    by (auto simp: has_negative_cycle_def)
  from c have "set c \<subseteq> E" "chain c" "c \<noteq> []" and closed: "fst (snd (last c)) = fst (hd c)"
    by (simp_all add: is_cycle_def)
  from potential_walk [OF assms this(1-3)] closed neg show False by simp
qed

lemma relaxable_gives_cycle:
  assumes "(u, v, w) \<in> set es"
    and "rounds es (length (nodes es) - 1) u + w < rounds es (length (nodes es) - 1) v"
  shows "has_negative_cycle (set es)"
proof (rule ccontr)
  assume no: "\<not> has_negative_cycle (set es)"
  let ?D = "rounds es (length (nodes es) - 1)"
  from rounds_walk [of es u "length (nodes es) - 1"] obtain q where
    q: "walk_to (set es) u q" and wq: "weight q = ?D u"
    by blast
  from walk_to_snoc [OF q assms(1)] have "walk_to (set es) v (q @ [(u, v, w)])" .
  from shorten_walk [OF no this] obtain r where
    r: "walk_to (set es) v r" and l: "length r \<le> length (nodes es) - 1"
    and wr: "weight r \<le> weight (q @ [(u, v, w)])"
    by blast
  from rounds_lower [OF r l] wr wq assms(2) show False by simp
qed

lemma negative_edge_cycle_correct:
  "negative_edge_cycle es \<longleftrightarrow> has_negative_cycle (set es)"
proof
  assume "negative_edge_cycle es"
  then obtain u v w where "(u, v, w) \<in> set es"
    "rounds es (length (nodes es) - 1) u + w < rounds es (length (nodes es) - 1) v"
    by (auto simp: negative_edge_cycle_rounds)
  then show "has_negative_cycle (set es)"
    by (rule relaxable_gives_cycle)
next
  assume c: "has_negative_cycle (set es)"
  show "negative_edge_cycle es"
  proof (rule ccontr)
    assume "\<not> negative_edge_cycle es"
    then have "\<forall>(u, v, w) \<in> set es. rounds es (length (nodes es) - 1) v
        \<le> rounds es (length (nodes es) - 1) u + w"
      by (auto simp: negative_edge_cycle_rounds not_less)
    from no_relaxable_no_cycle [OF this] c show False by simp
  qed
qed

section \<open>The efficiency check and the exchange graph\<close>

lemma list_all_conjD: "list_all (\<lambda>x. P x \<and> Q x) xs \<Longrightarrow> list_all P xs"
  by (induction xs) simp_all

lemma valid_input_well_shaped: "valid_input V A \<Longrightarrow> well_shaped V A"
  unfolding valid_input_def well_shaped_def
  by (intro conjI; (elim conjE)?; (assumption | erule list_all_conjD))

lemma valid_input_positive:
  assumes "valid_input V A" and "i < length V" and "k < length (hd V)"
  shows "0 < V ! i ! k"
proof -
  from assms(1) have "list_all (\<lambda>row. length row = length (hd V) \<and> list_all (\<lambda>x. 0 < x) row) V"
    by (simp add: valid_input_def)
  with assms(2) have "length (V ! i) = length (hd V)" and "list_all (\<lambda>x. 0 < x) (V ! i)"
    by (simp_all add: list_all_length)
  with assms(3) show ?thesis
    by (simp add: list_all_length)
qed

lemma log_ratio_valid:
  assumes "valid_input V A" and "i < length V" and "j < length V" and "k < length (hd V)"
  shows "log_ratio V i j k = Inr (ln (V ! i ! k / V ! j ! k))"
  using valid_input_positive [OF assms(1,2,4)] valid_input_positive [OF assms(1,3,4)]
  by (simp add: log_ratio_well_shaped [OF valid_input_well_shaped [OF assms(1)] assms(2-4)]
      not_le zero_less_divide_iff)

lemma py_min_value:
  assumes "\<And>k. k \<in> set ks \<Longrightarrow> f k = Inr (g k)" and "ks \<noteq> []"
  shows "py_min f ks = Inr (Min (g ` set ks))"
proof -
  have "ok_or_fails_in {} (py_min f ks)"
    by (rule py_min_ok_or_fails) (simp_all add: assms ok_or_fails_in_def)
  then obtain w where w: "py_min f ks = Inr w"
    by (auto simp: ok_or_fails_in_def fails_in_def)
  from py_min_Inr [OF w] assms(1) have "\<forall>k \<in> set ks. w \<le> g k" and "\<exists>k \<in> set ks. w = g k"
    by auto
  then have "Min (g ` set ks) = w"
    by (intro Min_eqI) auto
  with w show ?thesis by simp
qed

lemma add_edge_valid:
  assumes "valid_input V A" and "i < length V" and "j < length V"
  shows "add_edge V A (length (hd V)) i j edges = Inr (edges @ edge_of V A i j)"
proof -
  define ks where "ks = filter (\<lambda>k. A ! i ! k \<noteq> 0) [0..<length (hd V)]"
  have ks: "indices A i [0..<length (hd V)] = Inr ks"
    unfolding ks_def
    by (rule indices_well_shaped [OF valid_input_well_shaped [OF assms(1)] assms(2)]) auto
  have h: "holds_items V A i = set ks"
    by (auto simp: holds_items_def ks_def)
  have sub: "k < length (hd V)" if "k \<in> set ks" for k
    using that by (simp add: ks_def)
  show ?thesis
  proof (cases "i \<noteq> j \<and> ks \<noteq> []")
    case False
    then show ?thesis
      unfolding add_edge_def edge_of_def h ks by (auto simp: ebind_def)
  next
    case True
    have "py_min (log_ratio V i j) ks = Inr (Min ((\<lambda>k. ln (V ! i ! k / V ! j ! k)) ` set ks))"
    proof (rule py_min_value)
      show "ks \<noteq> []" using True by simp
    next
      fix k assume "k \<in> set ks"
      from log_ratio_valid [OF assms sub [OF this]]
      show "log_ratio V i j k = Inr (ln (V ! i ! k / V ! j ! k))" .
    qed
    with True show ?thesis
      unfolding add_edge_def edge_of_def h ks by (simp add: ebind_def)
  qed
qed

lemma for_each_append:
  assumes "\<And>x s. x \<in> set xs \<Longrightarrow> f x s = Inr (s @ g x)"
  shows "for_each f xs s = Inr (s @ concat (map g xs))"
  using assms
proof (induction xs arbitrary: s)
  case Nil
  show ?case by simp
next
  case (Cons x xs)
  from Cons.prems [of x s] Cons.IH [of "s @ g x"] Cons.prems show ?case
    by (simp add: ebind_def)
qed

lemma build_edges_valid:
  assumes "valid_input V A"
  shows "build_edges V A =
     Inr (concat (map (\<lambda>i. concat (map (edge_of V A i) [0..<length V])) [0..<length V]))"
proof -
  have inner: "for_each (add_edge V A (length (hd V)) i) [0..<length V] s =
      Inr (s @ concat (map (edge_of V A i) [0..<length V]))" if "i < length V" for i s
    by (rule for_each_append) (simp add: add_edge_valid [OF assms that])
  have "for_each (\<lambda>i. for_each (add_edge V A (length (hd V)) i) [0..<length V]) [0..<length V] [] =
      Inr ([] @ concat (map (\<lambda>i. concat (map (edge_of V A i) [0..<length V])) [0..<length V]))"
    by (rule for_each_append) (simp add: inner)
  then show ?thesis
    by (simp add: build_edges_well_shaped [OF valid_input_well_shaped [OF assms]])
qed

lemma in_edge_of:
  "e \<in> set (edge_of V A i j) \<longleftrightarrow>
     i \<noteq> j \<and> holds_items V A i \<noteq> {} \<and>
     e = (i, j, Min ((\<lambda>k. ln (V ! i ! k / V ! j ! k)) ` holds_items V A i))"
  by (auto simp: edge_of_def)

lemma in_all_edges:
  "e \<in> set (concat (map (\<lambda>i. concat (map (G i) [0..<n])) [0..<n])) \<longleftrightarrow>
     (\<exists>i < n. \<exists>j < n. e \<in> set (G i j))"
proof -
  have "e \<in> set (concat (map (\<lambda>i. concat (map (G i) [0..<n])) [0..<n])) \<longleftrightarrow>
     (\<exists>i \<in> set [0..<n]. \<exists>j \<in> set [0..<n]. e \<in> set (G i j))"
    by simp
  also have "\<dots> \<longleftrightarrow> (\<exists>i < n. \<exists>j < n. e \<in> set (G i j))"
    by (simp add: Bex_def)
  finally show ?thesis .
qed

lemma set_build_edges:
  "set (concat (map (\<lambda>i. concat (map (edge_of V A i) [0..<length V])) [0..<length V])) =
     exchange_graph V A"
proof (rule set_eqI)
  fix e :: edge
  obtain a b w where e: "e = (a, b, w)" by (cases e)
  have "(\<exists>i < length V. \<exists>j < length V. e \<in> set (edge_of V A i j)) \<longleftrightarrow> e \<in> exchange_graph V A"
    unfolding in_edge_of e exchange_graph_def by blast
  then show "e \<in> set (concat (map (\<lambda>i. concat (map (edge_of V A i) [0..<length V])) [0..<length V]))
      \<longleftrightarrow> e \<in> exchange_graph V A"
    by (simp only: in_all_edges)
qed

text \<open>
  In exact arithmetic, and with the detection routine as the specification describes it:
  for every valid input (valuations all strictly positive, allocations of the same shape
  with entries in \<open>[0, 1]\<close>), \<^verbatim>\<open>is_pareto_efficient\<close> returns \<^verbatim>\<open>True\<close> if and only if the
  exchange graph built from the input contains no cycle of negative weight. With doubles
  the statement does not carry over to every valid input: a quotient can underflow to
  \<open>0.0\<close>, on which \<^verbatim>\<open>math.log\<close> raises, and the logarithms are rounded.
\<close>

lemma is_pareto_efficient_iff_no_negative_cycle:
  assumes "valid_input V A"
  shows "is_pareto_efficient V A = Inr (\<not> has_negative_cycle (exchange_graph V A))"
proof -
  let ?es = "concat (map (\<lambda>i. concat (map (edge_of V A i) [0..<length V])) [0..<length V])"
  have "is_pareto_efficient V A = Inr (\<not> negative_edge_cycle ?es)"
    by (simp only: is_pareto_efficient_def build_edges_valid [OF assms] ebind_def sum.case)
  also have "negative_edge_cycle ?es \<longleftrightarrow> has_negative_cycle (set ?es)"
    by (rule negative_edge_cycle_correct)
  also have "set ?es = exchange_graph V A"
    by (rule set_build_edges)
  finally show ?thesis .
qed

text \<open>The first documented example of \<^verbatim>\<open>is_pareto_efficient\<close>: each player holds the
  item the other values more, and the answer is \<^verbatim>\<open>False\<close>.\<close>

lemma swapped_items_edges:
  "build_edges [[50, 1], [1, 100]] [[0, 1], [1, 0]] =
     Inr [(0, Suc 0, ln (1 / 100)), (Suc 0, 0, ln (1 / 50))]"
  by (simp add: build_edges_def add_edge_def py_defs)

lemma swapped_items_detected:
  "negative_edge_cycle [(0, Suc 0, ln (1 / 100)), (Suc 0, 0, ln (1 / 50))]"
  by (simp add: negative_edge_cycle_def bellman_ford_def nodes_def ln_add)

lemma swapped_items_inefficient:
  "is_pareto_efficient [[50, 1], [1, 100]] [[0, 1], [1, 0]] = Inr False"
  by (simp add: is_pareto_efficient_def swapped_items_edges swapped_items_detected ebind_def)

lemma is_pareto_efficient_iff_no_negative_cycle_example:
  "valid_input [[50, 1], [1, 100]] [[0, 1], [1, 0]] \<and>
   is_pareto_efficient [[50, 1], [1, 100]] [[0, 1], [1, 0]] = Inr False \<and>
   has_negative_cycle (exchange_graph [[50, 1], [1, 100]] [[0, 1], [1, 0]])"
proof -
  have v: "valid_input [[50, 1], [1, 100]] [[0, 1], [1, 0]]"
    by (simp add: valid_input_def)
  from is_pareto_efficient_iff_no_negative_cycle [OF v] swapped_items_inefficient
  have "has_negative_cycle (exchange_graph [[50, 1], [1, 100]] [[0, 1], [1, 0]])"
    by simp
  with v swapped_items_inefficient show ?thesis
    by (intro conjI)
qed

end
